theory Spec2Isabelle
  imports Main "HOL-Library.Word"
begin

section \<open>NickCast: a single-publisher, multi-subscriber byte-stream relay\<close>

text \<open>
  The development embeds the Go sources of NickCast: the relay in
  \<^verbatim>\<open>internal/server/server.go\<close>, the NickServ client (\<^verbatim>\<open>Authenticate\<close>) and the
  configuration loader (\<^verbatim>\<open>LoadConfig\<close>). Go strings and byte slices are lists of bytes;
  lengths are Go \<^verbatim>\<open>int\<close>s, far from overflow here, and are written as \<open>int\<close> where the
  source subtracts them.
\<close>

type_synonym byte = "8 word"
type_synonym chunk = "byte list"

subsection \<open>The recent-history buffer (\<^verbatim>\<open>broadcast\<close>, first half)\<close>

definition maxRingBufferSize :: nat where
  "maxRingBufferSize = 128 * 1024"

text \<open>
  \<^verbatim>\<open>broadcast\<close>, lines 220-241: the write to \<^verbatim>\<open>ringBuffer\<close> under \<^verbatim>\<open>ringBufferMu\<close>.
  \<open>rb\<close> is the content of the buffer before the call, the result its content after.
\<close>

definition ringWrite :: "chunk \<Rightarrow> byte list \<Rightarrow> byte list" where
  "ringWrite data rb =
     (let kept =
        (if int (length rb) + int (length data) > int maxRingBufferSize then
           (let copyLen0 = int maxRingBufferSize - int (length data);
                copyLen = (if copyLen0 < 0 then 0 else copyLen0)
            in if int (length rb) > copyLen
               then drop (nat (int (length rb) - copyLen)) rb
               else rb)
         else rb)
      in kept @ data)"

text \<open>A run of appends, starting from the buffer \<open>rb\<close>, oldest chunk first.\<close>

fun ringWrites :: "chunk list \<Rightarrow> byte list \<Rightarrow> byte list" where
  "ringWrites [] rb = rb"
| "ringWrites (c # cs) rb = ringWrites cs (ringWrite c rb)"

text \<open>The last \<open>n\<close> elements of a list (all of it when it is shorter).\<close>

definition lastn :: "nat \<Rightarrow> 'a list \<Rightarrow> 'a list" where
  "lastn n xs = drop (length xs - n) xs"

subsection \<open>Strings: the library functions the sources call\<close>

text \<open>
  \<^verbatim>\<open>strings.SplitN(s, sep, 2)\<close> for a one-byte separator: the text before the first
  separator and the text after it, or \<open>s\<close> alone when it has no separator.
\<close>

definition SplitN2 :: "char \<Rightarrow> string \<Rightarrow> string list" where
  "SplitN2 sep s =
     (if sep \<in> set s
      then [takeWhile (\<lambda>c. c \<noteq> sep) s, tl (dropWhile (\<lambda>c. c \<noteq> sep) s)]
      else [s])"

definition HasPrefix :: "string \<Rightarrow> string \<Rightarrow> bool" where
  "HasPrefix s pre = (take (length pre) s = pre)"

subsection \<open>The NickServ client (\<^verbatim>\<open>Authenticate\<close>)\<close>

record AuthClient =
  APIURL :: string
  Token :: string
  UserAgent :: string

record AuthRequest =
  AccountName :: string
  Passphrase :: string

record AuthResponse =
  Success :: bool
  Message :: string

record http_request =
  reqMethod :: string
  reqURL :: string
  reqHeaders :: "(string \<times> string) list"
  reqBody :: string

record http_response =
  StatusCode :: int
  Body :: string

text \<open>The errors \<^verbatim>\<open>Authenticate\<close> builds with \<^verbatim>\<open>fmt.Errorf\<close>, one constructor each.\<close>

datatype auth_error =
    MarshalFailed
  | CreateRequestFailed
  | RequestFailed
  | BadStatus int
  | DecodeFailed
  | AuthenticationFailed string

text \<open>
  What lies outside the repository during one call: the standard library's JSON and
  base64 codecs and the network. Each field is the function the source calls, with
  \<open>None\<close> for a returned error.
\<close>

record env =
  b64decode :: "string \<Rightarrow> string option"
  jsonMarshal :: "AuthRequest \<Rightarrow> string option"
  newRequest :: "string \<Rightarrow> string \<Rightarrow> string \<Rightarrow> bool"
  clientDo :: "http_request \<Rightarrow> http_response option"
  jsonDecode :: "string \<Rightarrow> AuthResponse option"

definition NewAuthClient :: "string \<Rightarrow> string \<Rightarrow> AuthClient" where
  "NewAuthClient apiURL token =
     \<lparr>APIURL = apiURL, Token = token, UserAgent = ''NickStream/1.0''\<rparr>"

definition authHTTPRequest :: "AuthClient \<Rightarrow> string \<Rightarrow> http_request" where
  "authHTTPRequest a jsonData =
     \<lparr>reqMethod = ''POST'', reqURL = APIURL a,
      reqHeaders = [(''Authorization'', ''Bearer '' @ Token a),
                    (''Content-Type'', ''application/json''),
                    (''User-Agent'', UserAgent a)],
      reqBody = jsonData\<rparr>"

definition Authenticate :: "env \<Rightarrow> AuthClient \<Rightarrow> string \<Rightarrow> string \<Rightarrow> bool \<times> auth_error option" where
  "Authenticate e a accountName passphrase =
     (let reqBody = \<lparr>AccountName = accountName, Passphrase = passphrase\<rparr> in
      case jsonMarshal e reqBody of
        None \<Rightarrow> (False, Some MarshalFailed)
      | Some jsonData \<Rightarrow>
          if \<not> newRequest e ''POST'' (APIURL a) jsonData then (False, Some CreateRequestFailed)
          else
            (case clientDo e (authHTTPRequest a jsonData) of
               None \<Rightarrow> (False, Some RequestFailed)
             | Some resp \<Rightarrow>
                 if StatusCode resp \<noteq> 200 then (False, Some (BadStatus (StatusCode resp)))
                 else
                   (case jsonDecode e (Body resp) of
                      None \<Rightarrow> (False, Some DecodeFailed)
                    | Some authResp \<Rightarrow>
                        if \<not> Success authResp \<and> Message authResp \<noteq> ''''
                        then (False, Some (AuthenticationFailed (Message authResp)))
                        else (Success authResp, None))))"

subsection \<open>The configuration loader (\<^verbatim>\<open>LoadConfig\<close>)\<close>

record Config =
  ListenAddress :: string
  AuthURL :: string
  APIToken :: string

datatype config_error =
    ExecutablePathError
  | OpenError string
  | ReadError
  | AuthURLMissing
  | APITokenMissing

text \<open>
  The file system as \<^verbatim>\<open>LoadConfig\<close> sees it: \<^verbatim>\<open>os.Executable\<close>, the path
  \<^verbatim>\<open>filepath.Join(filepath.Dir(execPath), "nickcast.conf")\<close>, and \<^verbatim>\<open>os.Open\<close> followed
  by the \<^verbatim>\<open>bufio.Scanner\<close>: the lines it yields before it stops, and whether it stopped
  on an error (\<^verbatim>\<open>scanner.Err()\<close>). \<open>trimSpace\<close> is \<^verbatim>\<open>strings.TrimSpace\<close>.
\<close>

record filesys =
  osExecutable :: "string option"
  confPath :: "string \<Rightarrow> string"
  openScan :: "string \<Rightarrow> (string list \<times> bool) option"
  trimSpace :: "string \<Rightarrow> string"

text \<open>One turn of the \<^verbatim>\<open>for scanner.Scan()\<close> loop, lines 40-60.\<close>

definition scanLine :: "(string \<Rightarrow> string) \<Rightarrow> Config \<Rightarrow> string \<Rightarrow> Config" where
  "scanLine trim cfg text =
     (let line = trim text in
      if line = '''' \<or> HasPrefix line ''#'' then cfg
      else
        (let parts = SplitN2 (CHR ''='') line in
         if length parts \<noteq> 2 then cfg
         else
           (let key = trim (parts ! 0); val = trim (parts ! 1) in
            if key = ''listen'' then cfg\<lparr>ListenAddress := val\<rparr>
            else if key = ''auth_url'' then cfg\<lparr>AuthURL := val\<rparr>
            else if key = ''api_token'' then cfg\<lparr>APIToken := val\<rparr>
            else cfg)))"

definition scanAll :: "(string \<Rightarrow> string) \<Rightarrow> string list \<Rightarrow> Config" where
  "scanAll trim ls = foldl (scanLine trim) \<lparr>ListenAddress = '''', AuthURL = '''', APIToken = ''''\<rparr> ls"

text \<open>
  \<^verbatim>\<open>LoadConfig\<close>: the returned error (\<open>None\<close> for \<^verbatim>\<open>nil\<close>) and the value of the global
  \<^verbatim>\<open>AppConfig\<close> after the call, \<open>app\<close> being its value before.
\<close>

definition LoadConfig :: "filesys \<Rightarrow> Config \<Rightarrow> config_error option \<times> Config" where
  "LoadConfig fs app =
     (case osExecutable fs of
        None \<Rightarrow> (Some ExecutablePathError, app)
      | Some execPath \<Rightarrow>
          (let configPath = confPath fs execPath in
           case openScan fs configPath of
             None \<Rightarrow> (Some (OpenError configPath), app)
           | Some (ls, scanErr) \<Rightarrow>
               (let cfg = scanAll (trimSpace fs) ls in
                if scanErr then (Some ReadError, app)
                else
                  (let cfg = (if ListenAddress cfg = '''' then cfg\<lparr>ListenAddress := '':8000''\<rparr> else cfg) in
                   if AuthURL cfg = '''' then (Some AuthURLMissing, app)
                   else if APIToken cfg = '''' then (Some APITokenMissing, app)
                   else (None, cfg)))))"

text \<open>
  The lines of the configuration file when it can be read: the executable's path is
  known, the file opens, and the scanner reaches its end without an error.
\<close>

definition configLines :: "filesys \<Rightarrow> string list option" where
  "configLines fs =
     (case osExecutable fs of
        None \<Rightarrow> None
      | Some execPath \<Rightarrow>
          (case openScan fs (confPath fs execPath) of
             None \<Rightarrow> None
           | Some (ls, scanErr) \<Rightarrow> if scanErr then None else Some ls))"

text \<open>
  \<^verbatim>\<open>strings.TrimSpace\<close> on ASCII text: the six ASCII white-space bytes are cut from both
  ends. It is used where a concrete file is evaluated.
\<close>

definition asciiSpace :: "char \<Rightarrow> bool" where
  "asciiSpace c = (c \<in> {CHR 0x09, CHR 0x0A, CHR 0x0B, CHR 0x0C, CHR 0x0D, CHR '' ''})"

definition TrimSpaceASCII :: "string \<Rightarrow> string" where
  "TrimSpaceASCII s = rev (dropWhile asciiSpace (rev (dropWhile asciiSpace s)))"

subsection \<open>Credentials of an ingest request\<close>

text \<open>
  The part of \<^verbatim>\<open>*http.Request\<close> the handler reads: \<^verbatim>\<open>r.Header.Get\<close> and
  \<^verbatim>\<open>r.URL.Query().Get\<close>, both returning the empty string for an absent name.
\<close>

record request =
  headerGet :: "string \<Rightarrow> string"
  queryGet :: "string \<Rightarrow> string"

text \<open>\<^verbatim>\<open>parseBasicAuth\<close>; \<open>None\<close> is \<^verbatim>\<open>ok == false\<close>.\<close>

definition parseBasicAuth :: "env \<Rightarrow> request \<Rightarrow> (string \<times> string) option" where
  "parseBasicAuth e r =
     (let auth = headerGet r ''Authorization'' in
      if auth = '''' \<or> \<not> HasPrefix auth ''Basic '' then None
      else
        (case b64decode e (drop (length ''Basic '') auth) of
           None \<Rightarrow> None
         | Some payload \<Rightarrow>
             (let pair = SplitN2 (CHR '':'') payload in
              if length pair \<noteq> 2 then None else Some (pair ! 0, pair ! 1))))"

text \<open>
  \<^verbatim>\<open>streamHandler\<close>, lines 82-85: the value of \<^verbatim>\<open>sourcePass\<close>, the header
  \<^verbatim>\<open>X-Source-Password\<close> or, when that is empty, the query parameter \<^verbatim>\<open>password\<close>.
\<close>

definition sourcePass :: "request \<Rightarrow> string" where
  "sourcePass r =
     (let sp = headerGet r ''X-Source-Password'' in
      if sp = '''' then queryGet r ''password'' else sp)"

text \<open>\<^verbatim>\<open>streamHandler\<close>, lines 80-98: the name and secret, or \<open>None\<close> when the handler answers 401.\<close>

definition credentials :: "env \<Rightarrow> request \<Rightarrow> (string \<times> string) option" where
  "credentials e r =
     (case parseBasicAuth e r of
        Some up \<Rightarrow> Some up
      | None \<Rightarrow>
          (if sourcePass r \<noteq> ''''
           then (let parts = SplitN2 (CHR '':'') (sourcePass r) in
                 if length parts = 2 then Some (parts ! 0, parts ! 1) else None)
           else None))"


text \<open>
  \<^verbatim>\<open>streamHandler\<close>, lines 80-107: whether the request gets past both 401 answers.
  \<^verbatim>\<open>cfg\<close> is \<^verbatim>\<open>config.AppConfig\<close>.
\<close>

definition authorized :: "env \<Rightarrow> Config \<Rightarrow> request \<Rightarrow> bool" where
  "authorized e cfg r =
     (case credentials e r of
        None \<Rightarrow> False
      | Some (user, pass) \<Rightarrow>
          (let auth = NewAuthClient (AuthURL cfg) (APIToken cfg);
               (valid, err) = Authenticate e auth user pass
           in \<not> (err \<noteq> None \<or> \<not> valid)))"

subsection \<open>The relay: shared state and handlers\<close>

text \<open>
  \<^verbatim>\<open>streamHandler\<close> reads every chunk into the same array \<^verbatim>\<open>buf\<close> (line 128) and hands
  \<^verbatim>\<open>buf[:n]\<close> to \<^verbatim>\<open>broadcast\<close>, which sends that slice, not a copy of its bytes, into the
  listeners' channels. A slice is therefore modelled as what it is: a reference to the
  read buffer of a publisher, and a length. Its bytes are read from that buffer at the
  moment it is used.
\<close>

type_synonym slice = "nat \<times> nat"

text \<open>
  A listener channel \<^verbatim>\<open>make(chan []byte, 100)\<close>: the slices waiting in its buffer,
  oldest first, and whether it has been closed.
\<close>

record chan =
  queue :: "slice list"
  closed :: bool

definition listenerChanCap :: nat where
  "listenerChanCap = 100"

text \<open>
  Where a \<^verbatim>\<open>streamHandler\<close> goroutine stands. \<open>POnce\<close>, \<open>PRing\<close> and \<open>PFan\<close> carry the
  \<open>n\<close> of the chunk \<^verbatim>\<open>buf[:n]\<close> just read and whether the read also returned an error.
\<close>

datatype publisher =
    PNew
  | PConflict
  | PAuth
  | PUnauthorized
  | PBegin
  | PLoop
  | POnce nat bool
  | PRing nat bool
  | PFan nat bool
  | PDefer1
  | PDefer2
  | PDefer3
  | PReset1
  | PReset2
  | PReset3
  | PReset4
  | PDone

text \<open>
  Where a \<^verbatim>\<open>listenHandler\<close> goroutine stands, with its local variables: the captured
  \<^verbatim>\<open>currentStreamCtx\<close>, the gate channel its first \<^verbatim>\<open>select\<close> waits on, its own channel
  \<^verbatim>\<open>ch\<close>, in \<open>LWrite\<close> the slice \<^verbatim>\<open>bufferedData\<close> that \<^verbatim>\<open>ringBuffer.Bytes()\<close> returned (the
  history buffer it points into and its length), and in \<open>LData\<close> the value \<^verbatim>\<open>data\<close> it
  received from its channel at line 200 and has not yet written out: a slice, or
  \<^verbatim>\<open>nil\<close> (\<open>None\<close>) from a closed channel. \<open>LDone\<close> carries the status the handler
  answered, if it wrote one.
\<close>

datatype listener =
    LNew
  | LCaptured nat
  | LWait nat nat
  | LCheck nat
  | LRegister nat
  | LSnapshot nat nat
  | LWrite nat nat nat nat
  | LLoop nat nat
  | LData nat nat "slice option"
  | LUnregister nat
  | LDone "nat option"

text \<open>
  The package variables of \<^verbatim>\<open>server.go\<close>, the heap and the goroutines. Channels, contexts
  and history buffers are objects on the heap: they are named by addresses (\<open>nat\<close>),
  handed out in increasing order by \<open>nextChan\<close>, \<open>nextGate\<close>, \<open>nextCtx\<close> and \<open>nextRing\<close>;
  address 0 of a gate, a context or a history buffer is \<^verbatim>\<open>nil\<close>. \<open>closedGates\<close> holds the
  gates (\<^verbatim>\<open>firstData\<close> channels) that were closed, \<open>cancelled\<close> the contexts whose
  \<^verbatim>\<open>Done()\<close> is closed. \<open>rings a\<close> is the content of the \<^verbatim>\<open>bytes.Buffer\<close> at address \<open>a\<close>
  and \<open>ringBuffer\<close> the address in the variable of that name. \<open>bufs p\<close> is the array
  \<^verbatim>\<open>buf\<close> of publisher \<open>p\<close>, 1024 bytes, and \<open>louts l\<close> what the \<^verbatim>\<open>w.Write\<close> calls of listener
  \<open>l\<close> have written so far.
\<close>

record server =
  appConfig :: Config
  listeners :: "nat set"
  chans :: "nat \<Rightarrow> chan"
  nextChan :: nat
  firstData :: nat
  closedGates :: "nat set"
  nextGate :: nat
  firstDataOnce :: bool
  streamActive :: bool
  streamCancelFn :: "nat option"
  streamCtx :: nat
  cancelled :: "nat set"
  nextCtx :: nat
  ringBuffer :: nat
  rings :: "nat \<Rightarrow> byte list"
  nextRing :: nat
  bufs :: "nat \<Rightarrow> byte list"
  pubs :: "nat \<Rightarrow> publisher"
  lsts :: "nat \<Rightarrow> listener"
  louts :: "nat \<Rightarrow> byte list"

text \<open>The bytes of a slice of a read buffer, as they are now.\<close>

definition sliceBytes :: "server \<Rightarrow> slice \<Rightarrow> byte list" where
  "sliceBytes s sl = take (snd sl) (bufs s (fst sl))"

text \<open>
  \<^verbatim>\<open>r.Body.Read(buf)\<close> returning the bytes \<open>d\<close>: they overwrite the beginning of the array.
\<close>

definition readInto :: "byte list \<Rightarrow> byte list \<Rightarrow> byte list" where
  "readInto d arr = d @ drop (length d) arr"

text \<open>
  \<^verbatim>\<open>broadcast\<close>, lines 220-241, under \<^verbatim>\<open>ringBufferMu\<close>: \<^verbatim>\<open>ringBuffer.Write\<close> copies the bytes
  of the slice into the history buffer.
\<close>

definition ringStep :: "slice \<Rightarrow> server \<Rightarrow> server" where
  "ringStep data s =
     s\<lparr>rings := (rings s)(ringBuffer s := ringWrite (sliceBytes s data) (rings s (ringBuffer s)))\<rparr>"

text \<open>
  \<^verbatim>\<open>select { case ch <- data: default: }\<close>: the send goes through when the buffer has
  room, and is dropped otherwise.
\<close>

definition trySend :: "slice \<Rightarrow> chan \<Rightarrow> chan" where
  "trySend data ch =
     (if length (queue ch) < listenerChanCap then ch\<lparr>queue := queue ch @ [data]\<rparr> else ch)"

text \<open>
  \<^verbatim>\<open>broadcast\<close>, lines 243-254, under \<^verbatim>\<open>listenersMu\<close>. A send on a closed channel panics:
  that is \<open>None\<close>.
\<close>

definition fanout :: "slice \<Rightarrow> server \<Rightarrow> server option" where
  "fanout data s =
     (if \<exists>c \<in> listeners s. closed (chans s c) then None
      else Some (s\<lparr>chans := (\<lambda>c. if c \<in> listeners s then trySend data (chans s c) else chans s c)\<rparr>))"

definition broadcast :: "slice \<Rightarrow> server \<Rightarrow> server option" where
  "broadcast data s = fanout data (ringStep data s)"

text \<open>\<^verbatim>\<open>clearListeners\<close>; closing a closed channel panics: that is \<open>None\<close>.\<close>

definition clearListeners :: "server \<Rightarrow> server option" where
  "clearListeners s =
     (if \<exists>c \<in> listeners s. closed (chans s c) then None
      else Some (s\<lparr>chans := (\<lambda>c. if c \<in> listeners s then (chans s c)\<lparr>closed := True\<rparr> else chans s c),
                  listeners := {}\<rparr>))"

text \<open>\<^verbatim>\<open>make(chan []byte, 100)\<close> at the next free address, and \<^verbatim>\<open>registerListener\<close>.\<close>

definition makeChan :: "server \<Rightarrow> server" where
  "makeChan s = s\<lparr>chans := (chans s)(nextChan s := \<lparr>queue = [], closed = False\<rparr>),
                  nextChan := Suc (nextChan s)\<rparr>"

definition registerListener :: "nat \<Rightarrow> server \<Rightarrow> server" where
  "registerListener ch s = s\<lparr>listeners := insert ch (listeners s)\<rparr>"

definition unregisterListener :: "nat \<Rightarrow> server \<Rightarrow> server" where
  "unregisterListener ch s = s\<lparr>listeners := listeners s - {ch}\<rparr>"

text \<open>
  Lines 64-69 of \<^verbatim>\<open>resetStreamState\<close> and, word for word, lines 112-117 of
  \<^verbatim>\<open>streamHandler\<close>: under \<^verbatim>\<open>streamCtxMu\<close>, cancel the context in place and make a new one.
\<close>

definition newStreamCtx :: "server \<Rightarrow> server" where
  "newStreamCtx s =
     (let s1 = (case streamCancelFn s of
                  None \<Rightarrow> s
                | Some c \<Rightarrow> s\<lparr>cancelled := insert c (cancelled s)\<rparr>)
      in s1\<lparr>streamCtx := nextCtx s, streamCancelFn := Some (nextCtx s), nextCtx := Suc (nextCtx s)\<rparr>)"

text \<open>
  \<^verbatim>\<open>resetStreamState\<close>, statement by statement; line 59 puts a new, empty
  \<^verbatim>\<open>bytes.Buffer\<close> into \<^verbatim>\<open>ringBuffer\<close>.
\<close>

definition resetOnce :: "server \<Rightarrow> server" where
  "resetOnce s = s\<lparr>firstDataOnce := False\<rparr>"

definition resetGate :: "server \<Rightarrow> server" where
  "resetGate s = s\<lparr>firstData := nextGate s, nextGate := Suc (nextGate s)\<rparr>"

definition resetRing :: "server \<Rightarrow> server" where
  "resetRing s = s\<lparr>ringBuffer := nextRing s, rings := (rings s)(nextRing s := []),
                   nextRing := Suc (nextRing s)\<rparr>"

definition resetStreamState :: "server \<Rightarrow> server" where
  "resetStreamState s = newStreamCtx (resetRing (resetGate (resetOnce s)))"

text \<open>The package variables before \<^verbatim>\<open>Start\<close>, and the server as \<^verbatim>\<open>Start\<close> leaves it.\<close>

definition zero :: "Config \<Rightarrow> server" where
  "zero cfg =
     \<lparr>appConfig = cfg, listeners = {}, chans = (\<lambda>_. \<lparr>queue = [], closed = False\<rparr>), nextChan = 0,
      firstData = 0, closedGates = {}, nextGate = 1, firstDataOnce = False,
      streamActive = False, streamCancelFn = None, streamCtx = 0, cancelled = {}, nextCtx = 1,
      ringBuffer = 0, rings = (\<lambda>_. []), nextRing = 1, bufs = (\<lambda>_. replicate 1024 0),
      pubs = (\<lambda>_. PNew), lsts = (\<lambda>_. LNew), louts = (\<lambda>_. [])\<rparr>"

definition Start :: "Config \<Rightarrow> server" where
  "Start cfg = resetStreamState (zero cfg)"

subsection \<open>The goroutines, one atomic step at a time\<close>

text \<open>
  Each event is one step of one goroutine: an atomic operation, a critical section under
  one mutex, a channel operation, or a read or write on a connection. Publishers and
  listeners are numbered. What the outside world decides comes with the event: the request
  and the collaborator's answers (\<open>Auth\<close>), what \<^verbatim>\<open>r.Body.Read\<close> returned (\<open>Read\<close>), which
  ready case a \<^verbatim>\<open>select\<close> took (\<open>FirstData\<close>, \<open>ClientGone\<close>, \<open>CtxDone\<close>, \<open>Recv\<close>), whether
  \<^verbatim>\<open>w.Write\<close> succeeded (the flag of \<open>Snapshot\<close> and \<open>Send\<close>). \<open>Pub\<close> and \<open>Lis\<close> are the steps
  that need no input.
\<close>

datatype event =
    Connect nat
  | Auth nat request env
  | Read nat "byte list" bool
  | Pub nat
  | Lis nat
  | FirstData nat
  | ClientGone nat
  | CtxDone nat
  | Snapshot nat bool
  | Recv nat
  | Send nat bool

definition setPub :: "nat \<Rightarrow> publisher \<Rightarrow> server \<Rightarrow> server" where
  "setPub p pc s = s\<lparr>pubs := (pubs s)(p := pc)\<rparr>"

definition setLis :: "nat \<Rightarrow> listener \<Rightarrow> server \<Rightarrow> server" where
  "setLis l pc s = s\<lparr>lsts := (lsts s)(l := pc)\<rparr>"

text \<open>
  \<^verbatim>\<open>firstDataOnce.Do(func() { close(firstData) })\<close>, line 132. \<open>Inl\<close> is the panic of
  closing a closed channel; the \<^verbatim>\<open>Once\<close> counts as done all the same.
\<close>

definition onceDo :: "server \<Rightarrow> server + server" where
  "onceDo s =
     (if firstDataOnce s then Inr s
      else if firstData s \<in> closedGates s then Inl (s\<lparr>firstDataOnce := True\<rparr>)
      else Inr (s\<lparr>closedGates := insert (firstData s) (closedGates s), firstDataOnce := True\<rparr>))"

text \<open>
  The steps of \<^verbatim>\<open>streamHandler\<close> after authentication: lines 112-117 (\<open>PBegin\<close>), the body
  of the read loop (\<open>POnce\<close>, then \<^verbatim>\<open>broadcast\<close> in its two critical sections \<open>PRing\<close> and
  \<open>PFan\<close>), and the deferred function, lines 120-126 (\<open>PDefer1\<close> to \<open>PReset4\<close>). A panic
  in the loop unwinds into the deferred function.
\<close>

definition pubStep :: "nat \<Rightarrow> server \<Rightarrow> server option" where
  "pubStep p s =
     (case pubs s p of
        PBegin \<Rightarrow> Some (setPub p PLoop (newStreamCtx s))
      | POnce n e \<Rightarrow>
          (case onceDo s of
             Inl s' \<Rightarrow> Some (setPub p PDefer1 s')
           | Inr s' \<Rightarrow> Some (setPub p (PRing n e) s'))
      | PRing n e \<Rightarrow> Some (setPub p (PFan n e) (ringStep (p, n) s))
      | PFan n e \<Rightarrow>
          (case fanout (p, n) s of
             None \<Rightarrow> None
           | Some s' \<Rightarrow> Some (setPub p (if e then PDefer1 else PLoop) s'))
      | PDefer1 \<Rightarrow> Some (setPub p PDefer2 (s\<lparr>streamActive := False\<rparr>))
      | PDefer2 \<Rightarrow>
          (case streamCancelFn s of
             None \<Rightarrow> None
           | Some c \<Rightarrow> Some (setPub p PDefer3 (s\<lparr>cancelled := insert c (cancelled s)\<rparr>)))
      | PDefer3 \<Rightarrow>
          (case clearListeners s of
             None \<Rightarrow> None
           | Some s' \<Rightarrow> Some (setPub p PReset1 s'))
      | PReset1 \<Rightarrow> Some (setPub p PReset2 (resetOnce s))
      | PReset2 \<Rightarrow> Some (setPub p PReset3 (resetGate s))
      | PReset3 \<Rightarrow> Some (setPub p PReset4 (resetRing s))
      | PReset4 \<Rightarrow> Some (setPub p PDone (newStreamCtx s))
      | _ \<Rightarrow> None)"

text \<open>
  The steps of \<^verbatim>\<open>listenHandler\<close> that need no input: line 148 (\<open>LNew\<close>), entering the
  \<^verbatim>\<open>select\<close> of line 152, which reads the variable \<^verbatim>\<open>firstData\<close> (\<open>LCaptured\<close>), line 167
  (\<open>LCheck\<close>), lines 177-178 (\<open>LRegister\<close>), lines 182-186, where \<^verbatim>\<open>ringBuffer.Bytes()\<close>
  returns a slice of the history buffer (\<open>LSnapshot\<close>), and the deferred
  \<^verbatim>\<open>unregisterListener\<close> (\<open>LUnregister\<close>).
\<close>

definition lisStep :: "nat \<Rightarrow> server \<Rightarrow> server option" where
  "lisStep l s =
     (case lsts s l of
        LNew \<Rightarrow> Some (setLis l (LCaptured (streamCtx s)) s)
      | LCaptured c \<Rightarrow> Some (setLis l (LWait c (firstData s)) s)
      | LCheck c \<Rightarrow>
          (if \<not> streamActive s then Some (setLis l (LDone (Some 503)) s)
           else Some (setLis l (LRegister c) s))
      | LRegister c \<Rightarrow>
          Some (setLis l (LSnapshot c (nextChan s)) (registerListener (nextChan s) (makeChan s)))
      | LSnapshot c ch \<Rightarrow>
          (let n = length (rings s (ringBuffer s)) in
           if n > 0 then Some (setLis l (LWrite c ch (ringBuffer s) n) s)
           else Some (setLis l (LLoop c ch) s))
      | LUnregister ch \<Rightarrow> Some (setLis l (LDone (Some 200)) (unregisterListener ch s))
      | _ \<Rightarrow> None)"

definition writeOut :: "nat \<Rightarrow> byte list \<Rightarrow> server \<Rightarrow> server" where
  "writeOut l bs s = s\<lparr>louts := (louts s)(l := louts s l @ bs)\<rparr>"

text \<open>
  One step of the server; \<open>None\<close> when the goroutine is not at a place where the event
  can happen, or is blocked there. \<open>Snapshot\<close> is the \<^verbatim>\<open>w.Write(bufferedData)\<close> of line 187:
  it reads the history buffer through the slice taken earlier. The first \<open>n\<close> bytes of
  the buffer's array are the first \<open>n\<close> bytes of its content, which does not get shorter
  while chunks are no longer than the capacity. \<open>Recv\<close> is the receive of line 200: it
  takes the oldest slice from the listener's channel, or \<^verbatim>\<open>nil\<close> when the channel is closed
  and empty. \<open>Send\<close> is the \<^verbatim>\<open>w.Write(data)\<close> of line 201, a later step: it reads the
  publisher's read buffer through the slice received, as that buffer is then.
\<close>

fun step :: "server \<Rightarrow> event \<Rightarrow> server option" where
  "step s (Connect p) =
     (case pubs s p of
        PNew \<Rightarrow>
          (if streamActive s then Some (setPub p PConflict s)
           else Some (setPub p PAuth (s\<lparr>streamActive := True\<rparr>)))
      | _ \<Rightarrow> None)"
| "step s (Auth p r e) =
     (case pubs s p of
        PAuth \<Rightarrow>
          (if authorized e (appConfig s) r then Some (setPub p PBegin s)
           else Some (setPub p PUnauthorized (s\<lparr>streamActive := False\<rparr>)))
      | _ \<Rightarrow> None)"
| "step s (Read p d e) =
     (case pubs s p of
        PLoop \<Rightarrow>
          (if length d > 1024 then None
           else
             (let s' = s\<lparr>bufs := (bufs s)(p := readInto d (bufs s p))\<rparr> in
              if length d > 0 then Some (setPub p (POnce (length d) e) s')
              else if e then Some (setPub p PDefer1 s')
              else Some s'))
      | _ \<Rightarrow> None)"
| "step s (Pub p) = pubStep p s"
| "step s (Lis l) = lisStep l s"
| "step s (FirstData l) =
     (case lsts s l of
        LWait c g \<Rightarrow> (if g \<in> closedGates s then Some (setLis l (LCheck c) s) else None)
      | _ \<Rightarrow> None)"
| "step s (ClientGone l) =
     (case lsts s l of
        LWait c g \<Rightarrow> Some (setLis l (LDone None) s)
      | LLoop c ch \<Rightarrow> Some (setLis l (LUnregister ch) s)
      | _ \<Rightarrow> None)"
| "step s (CtxDone l) =
     (case lsts s l of
        LWait c g \<Rightarrow> (if c \<in> cancelled s then Some (setLis l (LDone (Some 503)) s) else None)
      | LLoop c ch \<Rightarrow> (if c \<in> cancelled s then Some (setLis l (LUnregister ch) s) else None)
      | _ \<Rightarrow> None)"
| "step s (Snapshot l ok) =
     (case lsts s l of
        LWrite c ch a n \<Rightarrow>
          (if ok then Some (setLis l (LLoop c ch) (writeOut l (take n (rings s a)) s))
           else Some (setLis l (LUnregister ch) s))
      | _ \<Rightarrow> None)"
| "step s (Recv l) =
     (case lsts s l of
        LLoop c ch \<Rightarrow>
          (case queue (chans s ch) of
             [] \<Rightarrow> (if closed (chans s ch) then Some (setLis l (LData c ch None) s) else None)
           | d # ds \<Rightarrow>
               Some (setLis l (LData c ch (Some d))
                       (s\<lparr>chans := (chans s)(ch := (chans s ch)\<lparr>queue := ds\<rparr>)\<rparr>)))
      | _ \<Rightarrow> None)"
| "step s (Send l ok) =
     (case lsts s l of
        LData c ch d \<Rightarrow>
          (if ok
           then Some (setLis l (LLoop c ch)
                        (writeOut l (case d of None \<Rightarrow> [] | Some sl \<Rightarrow> sliceBytes s sl) s))
           else Some (setLis l (LUnregister ch) s))
      | _ \<Rightarrow> None)"

fun run :: "server \<Rightarrow> event list \<Rightarrow> server option" where
  "run s [] = Some s"
| "run s (e # es) = (case step s e of None \<Rightarrow> None | Some s' \<Rightarrow> run s' es)"

subsection \<open>Predicates on the state\<close>

text \<open>
  A publisher holds the exclusivity flag from its successful \<^verbatim>\<open>CompareAndSwap\<close> (line 74)
  up to its own \<^verbatim>\<open>streamActive.Store(false)\<close> (lines 95, 105 and 122).
\<close>

fun holdsFlag :: "publisher \<Rightarrow> bool" where
  "holdsFlag PAuth = True"
| "holdsFlag PBegin = True"
| "holdsFlag PLoop = True"
| "holdsFlag (POnce n e) = True"
| "holdsFlag (PRing n e) = True"
| "holdsFlag (PFan n e) = True"
| "holdsFlag PDefer1 = True"
| "holdsFlag _ = False"

text \<open>A publisher that has been authenticated and has not begun its deferred function.\<close>

fun streaming :: "publisher \<Rightarrow> bool" where
  "streaming PBegin = True"
| "streaming PLoop = True"
| "streaming (POnce n e) = True"
| "streaming (PRing n e) = True"
| "streaming (PFan n e) = True"
| "streaming PDefer1 = True"
| "streaming _ = False"

text \<open>A publisher at a statement of its deferred function.\<close>

fun inCleanup :: "publisher \<Rightarrow> bool" where
  "inCleanup PDefer1 = True"
| "inCleanup PDefer2 = True"
| "inCleanup PDefer3 = True"
| "inCleanup PReset1 = True"
| "inCleanup PReset2 = True"
| "inCleanup PReset3 = True"
| "inCleanup PReset4 = True"
| "inCleanup _ = False"

text \<open>The length of the chunk a publisher is passing through its read loop.\<close>

fun chunkLen :: "publisher \<Rightarrow> nat" where
  "chunkLen (POnce n e) = n"
| "chunkLen (PRing n e) = n"
| "chunkLen (PFan n e) = n"
| "chunkLen _ = 0"

text \<open>
  What a listener holds: the context it captured at line 148, while it waits in the
  \<^verbatim>\<open>select\<close> of line 152 the gate channel that \<^verbatim>\<open>select\<close> evaluated, and the channel it
  made.
\<close>

fun tokenOf :: "listener \<Rightarrow> nat option" where
  "tokenOf (LCaptured c) = Some c"
| "tokenOf (LWait c g) = Some c"
| "tokenOf (LCheck c) = Some c"
| "tokenOf (LRegister c) = Some c"
| "tokenOf (LSnapshot c ch) = Some c"
| "tokenOf (LWrite c ch a n) = Some c"
| "tokenOf (LLoop c ch) = Some c"
| "tokenOf (LData c ch d) = Some c"
| "tokenOf _ = None"

fun gateOf :: "listener \<Rightarrow> nat option" where
  "gateOf (LWait c g) = Some g"
| "gateOf _ = None"

fun chanOf :: "listener \<Rightarrow> nat option" where
  "chanOf (LSnapshot c ch) = Some ch"
| "chanOf (LWrite c ch a n) = Some ch"
| "chanOf (LLoop c ch) = Some ch"
| "chanOf (LData c ch d) = Some ch"
| "chanOf (LUnregister ch) = Some ch"
| "chanOf _ = None"

text \<open>A listener that has not yet written anything to its client.\<close>

fun beforeCopy :: "listener \<Rightarrow> bool" where
  "beforeCopy LNew = True"
| "beforeCopy (LCaptured c) = True"
| "beforeCopy (LWait c g) = True"
| "beforeCopy (LCheck c) = True"
| "beforeCopy (LRegister c) = True"
| "beforeCopy (LSnapshot c ch) = True"
| "beforeCopy (LWrite c ch a n) = True"
| "beforeCopy _ = False"

text \<open>
  A listener that holds a slice of the history buffer and has not yet written it out; a
  listener that holds a slice it received from its channel and has not yet written it
  out; a listener that has registered the channel \<open>ch\<close> and has not left; and the place
  of a listener in the order of its handler's statements, which it never goes back in.
\<close>

fun copying :: "listener \<Rightarrow> bool" where
  "copying (LWrite c ch a n) = True"
| "copying _ = False"

fun holding :: "listener \<Rightarrow> bool" where
  "holding (LData c ch (Some sl)) = True"
| "holding _ = False"

fun serving :: "nat \<Rightarrow> listener \<Rightarrow> bool" where
  "serving ch (LSnapshot c ch') = (ch' = ch)"
| "serving ch (LWrite c ch' a n) = (ch' = ch)"
| "serving ch (LLoop c ch') = (ch' = ch)"
| "serving ch (LData c ch' d) = (ch' = ch)"
| "serving ch _ = False"

fun stage :: "listener \<Rightarrow> nat" where
  "stage LNew = 0"
| "stage (LCaptured c) = 1"
| "stage (LWait c g) = 2"
| "stage (LCheck c) = 3"
| "stage (LRegister c) = 4"
| "stage (LSnapshot c ch) = 5"
| "stage (LWrite c ch a n) = 6"
| "stage (LLoop c ch) = 7"
| "stage (LData c ch d) = 7"
| "stage (LUnregister ch) = 8"
| "stage (LDone st) = 9"

text \<open>The goroutine an event belongs to.\<close>

fun publisherOf :: "event \<Rightarrow> nat option" where
  "publisherOf (Connect p) = Some p"
| "publisherOf (Auth p r e) = Some p"
| "publisherOf (Read p d e) = Some p"
| "publisherOf (Pub p) = Some p"
| "publisherOf _ = None"

fun listenerOf :: "event \<Rightarrow> nat option" where
  "listenerOf (Lis l) = Some l"
| "listenerOf (FirstData l) = Some l"
| "listenerOf (ClientGone l) = Some l"
| "listenerOf (CtxDone l) = Some l"
| "listenerOf (Snapshot l ok) = Some l"
| "listenerOf (Recv l) = Some l"
| "listenerOf (Send l ok) = Some l"
| "listenerOf _ = None"

text \<open>The channels in the registry are allocated and open.\<close>

definition registryOpen :: "server \<Rightarrow> bool" where
  "registryOpen s = (\<forall>c \<in> listeners s. c < nextChan s \<and> \<not> closed (chans s c))"

text \<open>
  Exclusivity: no two publishers hold the flag, and \<^verbatim>\<open>streamActive\<close> is set exactly while
  one does.
\<close>

definition flagInv :: "server \<Rightarrow> bool" where
  "flagInv s = ((\<forall>p q. holdsFlag (pubs s p) \<and> holdsFlag (pubs s q) \<longrightarrow> p = q) \<and>
                (streamActive s \<longleftrightarrow> (\<exists>p. holdsFlag (pubs s p))))"

text \<open>
  Contexts and gates in use are allocated, and \<^verbatim>\<open>streamCancelFn\<close> cancels the context in
  \<^verbatim>\<open>streamCtx\<close>.
\<close>

definition refsInv :: "server \<Rightarrow> bool" where
  "refsInv s =
     (streamCancelFn s = Some (streamCtx s) \<and> streamCtx s < nextCtx s \<and>
      firstData s < nextGate s \<and>
      (\<forall>l c. tokenOf (lsts s l) = Some c \<longrightarrow> c < nextCtx s) \<and>
      (\<forall>l g. gateOf (lsts s l) = Some g \<longrightarrow> g < nextGate s))"

text \<open>
  Every listener's channel is its own and is allocated; a chunk on its way through the
  read loop is at most 1024 bytes long and the history buffer at most
  \<open>maxRingBufferSize\<close>; a listener that has not yet written the history has been sent
  nothing.
\<close>

definition chanInv :: "server \<Rightarrow> bool" where
  "chanInv s =
     ((\<forall>l ch. chanOf (lsts s l) = Some ch \<longrightarrow> ch < nextChan s) \<and>
      (\<forall>l l' ch. chanOf (lsts s l) = Some ch \<and> chanOf (lsts s l') = Some ch \<longrightarrow> l = l'))"

definition sizeInv :: "server \<Rightarrow> bool" where
  "sizeInv s =
     ((\<forall>p. chunkLen (pubs s p) \<le> 1024) \<and>
      length (rings s (ringBuffer s)) \<le> maxRingBufferSize)"

definition outInv :: "server \<Rightarrow> bool" where
  "outInv s = (\<forall>l. beforeCopy (lsts s l) \<longrightarrow> louts s l = [])"

subsection \<open>Observing a run\<close>

text \<open>
  The bytes a step appends to the history buffer, and the bytes a run appends to it,
  oldest first.
\<close>

definition wrote :: "server \<Rightarrow> event \<Rightarrow> byte list" where
  "wrote s e =
     (case e of
        Pub p \<Rightarrow> (case pubs s p of PRing n x \<Rightarrow> sliceBytes s (p, n) | _ \<Rightarrow> [])
      | _ \<Rightarrow> [])"

fun written :: "server \<Rightarrow> event list \<Rightarrow> byte list" where
  "written s [] = []"
| "written s (e # es) =
     (case step s e of None \<Rightarrow> [] | Some s' \<Rightarrow> wrote s e @ written s' es)"

text \<open>The chunk a publisher has written to the history buffer and not yet fanned out.\<close>

definition inflight :: "nat \<Rightarrow> server \<Rightarrow> byte list" where
  "inflight p s = (case pubs s p of PFan n x \<Rightarrow> sliceBytes s (p, n) | _ \<Rightarrow> [])"

text \<open>
  What a listener is about to be sent as things stand: the history its slice of the
  history buffer shows (\<open>pendingCopy\<close>), the bytes the slice it has received shows
  (\<open>held\<close>), and the bytes the slices in its channel show (\<open>queued\<close>). \<open>delivered\<close> is
  what it has been sent followed by these.
\<close>

definition pendingCopy :: "nat \<Rightarrow> server \<Rightarrow> byte list" where
  "pendingCopy l s = (case lsts s l of LWrite c ch a n \<Rightarrow> take n (rings s a) | _ \<Rightarrow> [])"

definition held :: "nat \<Rightarrow> server \<Rightarrow> byte list" where
  "held l s = (case lsts s l of LData c ch (Some sl) \<Rightarrow> sliceBytes s sl | _ \<Rightarrow> [])"

definition queued :: "nat \<Rightarrow> server \<Rightarrow> byte list" where
  "queued ch s = concat (map (sliceBytes s) (queue (chans s ch)))"

definition delivered :: "nat \<Rightarrow> nat \<Rightarrow> server \<Rightarrow> byte list" where
  "delivered l ch s = louts s l @ pendingCopy l s @ held l s @ queued ch s"

text \<open>
  \<open>sessionStep s e\<close>: the event is not a step of the deferred function of any
  \<^verbatim>\<open>streamHandler\<close>. \<open>servedStep l ch s e\<close>: listener \<open>l\<close> does not leave by this event (its
  client stays, its context is not taken as done, its write succeeds); when the event is
  a fan-out, the listener's channel \<open>ch\<close> has room; when it is a write to the history
  buffer, the listener is not between taking its slice of that buffer and writing it
  out; and when it is a read into a publisher's read buffer, the listener's channel is
  empty and the listener is not between receiving a slice and writing it out, so that no
  slice it has yet to write out is overwritten.
\<close>

definition sessionStep :: "server \<Rightarrow> event \<Rightarrow> bool" where
  "sessionStep s e = (case e of Pub p \<Rightarrow> \<not> inCleanup (pubs s p) | _ \<Rightarrow> True)"

definition servedStep :: "nat \<Rightarrow> nat \<Rightarrow> server \<Rightarrow> event \<Rightarrow> bool" where
  "servedStep l ch s e =
     (case e of
        Pub p \<Rightarrow> (case pubs s p of
                    PFan n x \<Rightarrow> length (queue (chans s ch)) < listenerChanCap
                  | PRing n x \<Rightarrow> \<not> copying (lsts s l)
                  | _ \<Rightarrow> True)
      | Read p d x \<Rightarrow> queue (chans s ch) = [] \<and> \<not> holding (lsts s l)
      | ClientGone l' \<Rightarrow> l' \<noteq> l
      | CtxDone l' \<Rightarrow> l' \<noteq> l
      | Send l' ok \<Rightarrow> (if l' = l then ok else True)
      | Snapshot l' ok \<Rightarrow> (if l' = l then ok else True)
      | _ \<Rightarrow> True)"

fun sessionRun :: "server \<Rightarrow> event list \<Rightarrow> bool" where
  "sessionRun s [] = True"
| "sessionRun s (e # es) =
     (sessionStep s e \<and> (case step s e of None \<Rightarrow> False | Some s' \<Rightarrow> sessionRun s' es))"

fun served :: "nat \<Rightarrow> nat \<Rightarrow> server \<Rightarrow> event list \<Rightarrow> bool" where
  "served l ch s [] = True"
| "served l ch s (e # es) =
     (servedStep l ch s e \<and> (case step s e of None \<Rightarrow> False | Some s' \<Rightarrow> served l ch s' es))"

subsection \<open>Concrete inputs\<close>

text \<open>
  The inputs at which the theorems below are evaluated. \<open>demoEnv resp dec\<close> is an outside
  world whose HTTP exchange returns \<open>resp\<close> and whose JSON decoder returns \<open>dec\<close>; its
  base64 decoder knows the encodings of \<^verbatim>\<open>nocolon\<close> and of \<^verbatim>\<open>dj:pa:ss\<close>.
\<close>

definition demoEnv :: "http_response option \<Rightarrow> AuthResponse option \<Rightarrow> env" where
  "demoEnv resp dec =
     \<lparr>b64decode = (\<lambda>s. if s = ''bm9jb2xvbg=='' then Some ''nocolon''
                       else if s = ''ZGo6cGE6c3M='' then Some ''dj:pa:ss'' else None),
      jsonMarshal = (\<lambda>r. Some (''{'' @ AccountName r @ '','' @ Passphrase r @ ''}'')),
      newRequest = (\<lambda>_ _ _. True),
      clientDo = (\<lambda>_. resp),
      jsonDecode = (\<lambda>_. dec)\<rparr>"

definition acceptEnv :: env where
  "acceptEnv = demoEnv (Some \<lparr>StatusCode = 200, Body = ''{}''\<rparr>) (Some \<lparr>Success = True, Message = ''''\<rparr>)"

definition rejectEnv :: env where
  "rejectEnv = demoEnv (Some \<lparr>StatusCode = 200, Body = ''{}''\<rparr>) (Some \<lparr>Success = False, Message = ''bad''\<rparr>)"

definition demoClient :: AuthClient where
  "demoClient = NewAuthClient ''http://localhost:8089/v1/check_auth'' ''token''"

definition demoConfig :: Config where
  "demoConfig = \<lparr>ListenAddress = '':8000'', AuthURL = ''http://localhost:8089/v1/check_auth'',
                 APIToken = ''token''\<rparr>"

definition demoFS :: "string list \<Rightarrow> filesys" where
  "demoFS ls =
     \<lparr>osExecutable = Some ''/opt/nickcast/nickcast'',
      confPath = (\<lambda>_. ''/opt/nickcast/nickcast.conf''),
      openScan = (\<lambda>p. if p = ''/opt/nickcast/nickcast.conf'' then Some (ls, False) else None),
      trimSpace = TrimSpaceASCII\<rparr>"

definition mkRequest :: "string \<Rightarrow> string \<Rightarrow> string \<Rightarrow> request" where
  "mkRequest authorization xSourcePassword password =
     \<lparr>headerGet = (\<lambda>h. if h = ''Authorization'' then authorization
                       else if h = ''X-Source-Password'' then xSourcePassword else ''''),
      queryGet = (\<lambda>q. if q = ''password'' then password else '''')\<rparr>"

text \<open>A request with the password \<^verbatim>\<open>dj:pw\<close> in \<^verbatim>\<open>X-Source-Password\<close>.\<close>

definition djRequest :: request where
  "djRequest = mkRequest '''' ''dj:pw'' ''''"

text \<open>A run in which publisher 0 is admitted and publisher 1 is turned away.\<close>

definition conflictTrace :: "event list" where
  "conflictTrace = [Connect 0, Auth 0 djRequest acceptEnv, Connect 1]"

text \<open>
  \<open>admission\<close>: publisher 0 is admitted and begins its session. \<open>readCycle d\<close>: one turn of
  its read loop for the chunk \<open>d\<close>: the read, the \<^verbatim>\<open>firstDataOnce.Do\<close>, and the two halves
  of \<^verbatim>\<open>broadcast\<close>. \<open>joinSteps\<close>: listener 0 connects, passes the gate and registers its
  channel. \<open>cleanupSteps\<close>: the deferred function of publisher 0, from its
  \<^verbatim>\<open>streamActive.Store(false)\<close> to the end of \<^verbatim>\<open>resetStreamState\<close>.
\<close>

definition admission :: "event list" where
  "admission = [Connect 0, Auth 0 djRequest acceptEnv, Pub 0]"

definition readCycle :: "byte list \<Rightarrow> event list" where
  "readCycle d = [Read 0 d False, Pub 0, Pub 0, Pub 0]"

definition joinSteps :: "event list" where
  "joinSteps = [Lis 0, Lis 0, FirstData 0, Lis 0, Lis 0]"

definition cleanupSteps :: "event list" where
  "cleanupSteps = [Pub 0, Pub 0, Pub 0, Pub 0, Pub 0, Pub 0, Pub 0]"

text \<open>
  Publisher 0 sends the chunk \<open>[1]\<close>; listener 0 joins and is sent the history; the
  publisher sends the chunks \<open>[2]\<close> and \<open>[3]\<close>, which both go into the listener's channel;
  only then does the listener take them from its channel and write them out.
\<close>

definition overwriteTrace :: "event list" where
  "overwriteTrace =
     admission @ readCycle [1] @ joinSteps @ [Lis 0, Snapshot 0 True] @
     readCycle [2] @ readCycle [3] @ [Recv 0, Send 0 True, Recv 0, Send 0 True]"

text \<open>
  The same, but the listener is quicker: it has received the chunk \<open>[2]\<close> from its
  channel, which is empty again, when the publisher reads the chunk \<open>[3]\<close>; then it
  writes out what it received.
\<close>

definition heldTrace :: "event list" where
  "heldTrace =
     admission @ readCycle [1] @ joinSteps @ [Lis 0, Snapshot 0 True] @
     readCycle [2] @ [Recv 0] @ readCycle [3] @ [Send 0 True, Recv 0, Send 0 True]"

text \<open>
  A whole session: publisher 0 is admitted and sends the chunk \<open>[1]\<close>, listener 0 joins
  and is sent the history, the publisher's read fails, and its deferred function runs to
  the end.
\<close>

definition sessionTrace :: "event list" where
  "sessionTrace =
     admission @ readCycle [1] @ joinSteps @ [Lis 0, Snapshot 0 True] @ [Read 0 [] True] @ cleanupSteps"

text \<open>
  Listener 0 captures the context of the idle server; publisher 0 comes and goes without
  sending a byte; publisher 1 is admitted and sends its first chunk; only then does
  listener 0 enter its \<^verbatim>\<open>select\<close>.
\<close>

definition lateGateTrace :: "event list" where
  "lateGateTrace =
     [Lis 0] @ admission @ [Read 0 [] True] @ cleanupSteps @
     [Connect 1, Auth 1 djRequest acceptEnv, Pub 1, Read 1 [7] False, Pub 1] @
     [Lis 0]"

text \<open>
  \<open>joinTrace\<close>: publisher 0 is admitted and sends the chunk \<open>[9]\<close>; listener 0 connects
  and passes the gate, and stands before the registration of its channel.
  \<open>boundaryTrace\<close>, between the registration and the listener's taking its slice of the
  history: the chunk \<open>[1, 2]\<close> goes through the read loop. \<open>liveTrace\<close>, after the
  listener has taken its slice of the history: it writes the slice out, receives the
  chunk in its channel and writes it out, and one more chunk \<open>[3]\<close> goes through the read
  loop, is received and is written out.
\<close>

definition joinTrace :: "event list" where
  "joinTrace = admission @ readCycle [9] @ [Lis 0, Lis 0, FirstData 0, Lis 0]"

definition boundaryTrace :: "event list" where
  "boundaryTrace = readCycle [1, 2]"

definition liveTrace :: "event list" where
  "liveTrace =
     [Snapshot 0 True, Recv 0, Send 0 True] @ readCycle [3] @ [Recv 0, Send 0 True]"

text \<open>
  \<open>lateJoinTrace\<close>: publisher 0 is admitted and sends 128 chunks of 1024 zero bytes,
  which fill the history buffer; then it reads the chunk \<open>[1, 2]\<close> and writes it to the
  history buffer, listener 0 joins, registers, takes its slice of the history and writes
  it out, the chunk is fanned out, and the listener receives it and writes it out.
\<close>

definition fullRead :: "byte list" where
  "fullRead = replicate 1024 0"

definition warmUp :: "event list" where
  "warmUp = admission @ readCycle fullRead"

definition lateJoin :: "event list" where
  "lateJoin =
     [Read 0 [1, 2] False, Pub 0, Pub 0] @ joinSteps @
     [Lis 0, Snapshot 0 True, Pub 0, Recv 0, Send 0 True]"

definition lateJoinTrace :: "event list" where
  "lateJoinTrace = warmUp @ concat (replicate 127 (readCycle fullRead)) @ lateJoin"


section \<open>Verification\<close>

subsection \<open>The history buffer is a sliding window\<close>

lemma lastn_length: "length (lastn n xs) = min n (length xs)"
  by (simp add: lastn_def)

lemma lastn_append_lastn: "length ys \<le> n \<Longrightarrow> lastn n (lastn n xs @ ys) = lastn n (xs @ ys)"
  by (cases "length xs \<le> n") (auto simp: lastn_def add.commute)

lemma ringWrite_eq:
  "ringWrite data rb =
     (if length data \<le> maxRingBufferSize then lastn maxRingBufferSize (rb @ data) else data)"
proof (cases "length data \<le> maxRingBufferSize")
  case True
  show ?thesis
  proof (cases "length rb + length data > maxRingBufferSize")
    case over: True
    have "nat (int (length rb) - (int maxRingBufferSize - int (length data)))
          = length rb + length data - maxRingBufferSize"
      using True over by linarith
    then show ?thesis using True over
      by (auto simp: ringWrite_def lastn_def Let_def)
  next
    case False
    then show ?thesis using True
      by (auto simp: ringWrite_def lastn_def Let_def)
  qed
next
  case False
  then show ?thesis
    by (auto simp: ringWrite_def Let_def)
qed

lemma ringWrites_window:
  "\<forall>c \<in> set cs. length c \<le> maxRingBufferSize \<Longrightarrow>
   ringWrites cs (lastn maxRingBufferSize hist) = lastn maxRingBufferSize (hist @ concat cs)"
proof (induction cs arbitrary: hist)
  case Nil
  then show ?case by simp
next
  case (Cons c cs)
  have "ringWrite c (lastn maxRingBufferSize hist) = lastn maxRingBufferSize (hist @ c)"
    using Cons.prems by (simp add: ringWrite_eq lastn_append_lastn)
  then show ?case using Cons.IH [of "hist @ c"] Cons.prems by simp
qed

text \<open>
  C1, as the code has it. For every sequence of chunks, each no longer than the capacity
  (the read loop passes at most 1024 bytes at a time), appended to the empty buffer of a
  new session: the buffer is at most \<open>maxRingBufferSize\<close> long and holds exactly the last
  \<open>min total maxRingBufferSize\<close> bytes of everything appended. A chunk longer than the
  capacity is kept whole, and nothing else is kept.
\<close>

theorem history_window:
  "((\<forall>c \<in> set cs. length c \<le> maxRingBufferSize) \<longrightarrow>
      length (ringWrites cs []) \<le> maxRingBufferSize \<and>
      ringWrites cs [] = lastn (min (length (concat cs)) maxRingBufferSize) (concat cs)) \<and>
   (length data > maxRingBufferSize \<longrightarrow> ringWrite data rb = data)"
proof (intro conjI impI)
  assume small: "\<forall>c \<in> set cs. length c \<le> maxRingBufferSize"
  have "ringWrites cs (lastn maxRingBufferSize []) = lastn maxRingBufferSize ([] @ concat cs)"
    using small by (rule ringWrites_window)
  then have eq: "ringWrites cs [] = lastn maxRingBufferSize (concat cs)"
    by (simp add: lastn_def)
  have w: "lastn maxRingBufferSize (concat cs)
        = lastn (min (length (concat cs)) maxRingBufferSize) (concat cs)"
    by (simp add: lastn_def min_def)
  show "length (ringWrites cs []) \<le> maxRingBufferSize"
    using eq by (simp add: lastn_length)
  show "ringWrites cs [] = lastn (min (length (concat cs)) maxRingBufferSize) (concat cs)"
    using eq w by simp
next
  assume "length data > maxRingBufferSize"
  then show "ringWrite data rb = data"
    by (simp add: ringWrite_eq)
qed

theorem history_window_witness:
  "length [1, 2 :: byte] \<le> maxRingBufferSize \<and> length [3 :: byte] \<le> maxRingBufferSize \<and>
   length (ringWrites [[1, 2], [3 :: byte]] []) \<le> maxRingBufferSize \<and>
   ringWrites [[1, 2], [3 :: byte]] [] = [1, 2, 3] \<and>
   length (replicate 131073 (0 :: byte)) > maxRingBufferSize \<and>
   ringWrite (replicate 131073 0) [1, 2 :: byte] = replicate 131073 0"
  using history_window [of "[[1, 2], [3 :: byte]]" "replicate 131073 0" "[1, 2]"]
  by (simp add: maxRingBufferSize_def lastn_def)

text \<open>
  C1, as the specification states it, fails for a chunk longer than the capacity: the
  chunk is kept whole, so the buffer grows beyond \<open>maxRingBufferSize\<close>.
\<close>

theorem history_bound_counterexample:
  "\<not> length (ringWrites [replicate 131073 0] []) \<le> maxRingBufferSize"
  by (simp add: ringWrite_def maxRingBufferSize_def)

subsection \<open>Authentication fails closed\<close>

text \<open>
  C8. \<^verbatim>\<open>Authenticate\<close> returns \<^verbatim>\<open>true\<close> exactly when the request was built and sent, the
  response has status 200, its body decodes and the decoded \<^verbatim>\<open>success\<close> is true, and then
  the error is \<^verbatim>\<open>nil\<close>. A transport error, a status other than 200 and a decode error
  each return \<^verbatim>\<open>false\<close> with an error; a decoded \<^verbatim>\<open>success: false\<close> returns \<^verbatim>\<open>false\<close>.
\<close>

theorem Authenticate_fail_closed:
  "(fst (Authenticate e a u p) \<longleftrightarrow>
      (\<exists>jsonData resp authResp.
          jsonMarshal e \<lparr>AccountName = u, Passphrase = p\<rparr> = Some jsonData \<and>
          newRequest e ''POST'' (APIURL a) jsonData \<and>
          clientDo e (authHTTPRequest a jsonData) = Some resp \<and>
          StatusCode resp = 200 \<and>
          jsonDecode e (Body resp) = Some authResp \<and>
          Success authResp)) \<and>
   (fst (Authenticate e a u p) \<longrightarrow> snd (Authenticate e a u p) = None) \<and>
   (\<forall>jsonData. jsonMarshal e \<lparr>AccountName = u, Passphrase = p\<rparr> = Some jsonData \<and>
        newRequest e ''POST'' (APIURL a) jsonData \<longrightarrow>
      (clientDo e (authHTTPRequest a jsonData) = None \<longrightarrow>
         Authenticate e a u p = (False, Some RequestFailed)) \<and>
      (\<forall>resp. clientDo e (authHTTPRequest a jsonData) = Some resp \<longrightarrow>
         (StatusCode resp \<noteq> 200 \<longrightarrow>
            Authenticate e a u p = (False, Some (BadStatus (StatusCode resp)))) \<and>
         (StatusCode resp = 200 \<longrightarrow>
            (jsonDecode e (Body resp) = None \<longrightarrow>
               Authenticate e a u p = (False, Some DecodeFailed)) \<and>
            (\<forall>authResp. jsonDecode e (Body resp) = Some authResp \<and> \<not> Success authResp \<longrightarrow>
               \<not> fst (Authenticate e a u p)))))"
  by (auto simp: Authenticate_def Let_def split: option.splits if_splits)

theorem Authenticate_fail_closed_witness:
  "fst (Authenticate acceptEnv demoClient ''dj'' ''pw'') \<and>
   Authenticate (demoEnv None None) demoClient ''dj'' ''pw'' = (False, Some RequestFailed) \<and>
   Authenticate (demoEnv (Some \<lparr>StatusCode = 503, Body = ''''\<rparr>) None) demoClient ''dj'' ''pw''
     = (False, Some (BadStatus 503)) \<and>
   Authenticate (demoEnv (Some \<lparr>StatusCode = 200, Body = ''<html>''\<rparr>) None) demoClient ''dj'' ''pw''
     = (False, Some DecodeFailed) \<and>
   \<not> fst (Authenticate rejectEnv demoClient ''dj'' ''pw'')"
  using Authenticate_fail_closed [of acceptEnv demoClient "''dj''" "''pw''"]
        Authenticate_fail_closed [of "demoEnv None None" demoClient "''dj''" "''pw''"]
        Authenticate_fail_closed [of "demoEnv (Some \<lparr>StatusCode = 503, Body = ''''\<rparr>) None" demoClient "''dj''" "''pw''"]
        Authenticate_fail_closed [of "demoEnv (Some \<lparr>StatusCode = 200, Body = ''<html>''\<rparr>) None" demoClient "''dj''" "''pw''"]
        Authenticate_fail_closed [of rejectEnv demoClient "''dj''" "''pw''"]
  by (simp add: acceptEnv_def rejectEnv_def demoEnv_def)

subsection \<open>Loading the configuration\<close>

text \<open>
  C9. \<^verbatim>\<open>LoadConfig\<close> returns an error exactly when the file cannot be read
  (\<open>configLines\<close> is \<open>None\<close>: no executable path, no file, or a scanner error) or
  \<^verbatim>\<open>auth_url\<close> or \<^verbatim>\<open>api_token\<close> is empty after parsing; the \<^verbatim>\<open>listen\<close> key plays no part in
  that. On an error \<^verbatim>\<open>AppConfig\<close> is left as it was; on success it holds the parsed
  \<^verbatim>\<open>auth_url\<close> and \<^verbatim>\<open>api_token\<close> and the parsed listen address, or \<^verbatim>\<open>:8000\<close> when that is
  absent or empty.
\<close>

theorem LoadConfig_result:
  "(fst (LoadConfig fs app) \<noteq> None \<longleftrightarrow>
      (case configLines fs of
         None \<Rightarrow> True
       | Some ls \<Rightarrow> AuthURL (scanAll (trimSpace fs) ls) = '''' \<or>
                    APIToken (scanAll (trimSpace fs) ls) = '''')) \<and>
   (fst (LoadConfig fs app) \<noteq> None \<longrightarrow> snd (LoadConfig fs app) = app) \<and>
   (\<forall>ls. configLines fs = Some ls \<and> fst (LoadConfig fs app) = None \<longrightarrow>
      snd (LoadConfig fs app) =
        \<lparr>ListenAddress = (if ListenAddress (scanAll (trimSpace fs) ls) = '''' then '':8000''
                          else ListenAddress (scanAll (trimSpace fs) ls)),
         AuthURL = AuthURL (scanAll (trimSpace fs) ls),
         APIToken = APIToken (scanAll (trimSpace fs) ls)\<rparr>)"
  by (auto simp: LoadConfig_def configLines_def Let_def split: option.splits if_splits)

lemma scan_demo:
  "scanAll TrimSpaceASCII
     [''# NickServ API endpoint'', ''auth_url = http://localhost:8089/v1/check_auth'', '''',
      ''  api_token = a=b  '', ''listen = '']
   = \<lparr>ListenAddress = '''', AuthURL = ''http://localhost:8089/v1/check_auth'', APIToken = ''a=b''\<rparr>"
  by (simp add: scanAll_def scanLine_def TrimSpaceASCII_def asciiSpace_def HasPrefix_def SplitN2_def Let_def)

theorem LoadConfig_result_witness:
  "LoadConfig (demoFS [''# NickServ API endpoint'', ''auth_url = http://localhost:8089/v1/check_auth'', '''',
      ''  api_token = a=b  '', ''listen = '']) \<lparr>ListenAddress = '''', AuthURL = '''', APIToken = ''''\<rparr>
   = (None, \<lparr>ListenAddress = '':8000'', AuthURL = ''http://localhost:8089/v1/check_auth'', APIToken = ''a=b''\<rparr>) \<and>
   fst (LoadConfig (demoFS [''listen = :9000'', ''auth_url = x'']) demoConfig) \<noteq> None \<and>
   snd (LoadConfig (demoFS [''listen = :9000'', ''auth_url = x'']) demoConfig) = demoConfig"
proof -
  let ?ls = "[''# NickServ API endpoint'', ''auth_url = http://localhost:8089/v1/check_auth'', '''',
      ''  api_token = a=b  '', ''listen = '']"
  let ?app = "\<lparr>ListenAddress = '''', AuthURL = '''', APIToken = ''''\<rparr>"
  have l1: "configLines (demoFS ?ls) = Some ?ls"
    by (simp add: configLines_def demoFS_def)
  have t1: "trimSpace (demoFS ?ls) = TrimSpaceASCII"
    by (simp add: demoFS_def)
  have a: "LoadConfig (demoFS ?ls) ?app
    = (None, \<lparr>ListenAddress = '':8000'', AuthURL = ''http://localhost:8089/v1/check_auth'', APIToken = ''a=b''\<rparr>)"
    using LoadConfig_result [of "demoFS ?ls" ?app] l1 t1 scan_demo
    by (simp add: prod_eq_iff)
  let ?ls2 = "[''listen = :9000'', ''auth_url = x'']"
  have l2: "configLines (demoFS ?ls2) = Some ?ls2"
    by (simp add: configLines_def demoFS_def)
  have s2: "APIToken (scanAll (trimSpace (demoFS ?ls2)) ?ls2) = ''''"
    by (simp add: demoFS_def scanAll_def scanLine_def TrimSpaceASCII_def asciiSpace_def HasPrefix_def SplitN2_def Let_def)
  have b: "fst (LoadConfig (demoFS ?ls2) demoConfig) \<noteq> None \<and>
           snd (LoadConfig (demoFS ?ls2) demoConfig) = demoConfig"
    using LoadConfig_result [of "demoFS ?ls2" demoConfig] l2 s2 by simp
  from a b show ?thesis by simp
qed

subsection \<open>Credentials are split at the first colon\<close>

lemma SplitN2_first: "sep \<notin> set a \<Longrightarrow> SplitN2 sep (a @ sep # b) = [a, b]"
proof -
  assume n: "sep \<notin> set a"
  then have "takeWhile (\<lambda>c. c \<noteq> sep) (a @ sep # b) = a"
    by (induction a) auto
  moreover from n have "dropWhile (\<lambda>c. c \<noteq> sep) (a @ sep # b) = sep # b"
    by (induction a) auto
  ultimately show ?thesis by (simp add: SplitN2_def)
qed

lemma SplitN2_none: "sep \<notin> set s \<Longrightarrow> SplitN2 sep s = [s]"
  by (simp add: SplitN2_def)

text \<open>
  C10, as the code has it. A Basic payload, and the value of \<open>sourcePass\<close> when the
  Basic header gave no pair, is split at its first colon: the name is the text before it,
  the secret everything after it. A Basic payload with no colon gives no pair from the
  header, and the handler turns to \<open>sourcePass\<close>; the request is answered 401, and the
  exclusivity flag released, when the header gave no pair and \<open>sourcePass\<close> has no colon.
\<close>

theorem credentials_first_colon:
  "(\<forall>enc name secret.
      headerGet r ''Authorization'' = ''Basic '' @ enc \<and>
      b64decode e enc = Some (name @ '':'' @ secret) \<and> CHR '':'' \<notin> set name \<longrightarrow>
      parseBasicAuth e r = Some (name, secret) \<and> credentials e r = Some (name, secret)) \<and>
   (\<forall>name secret.
      parseBasicAuth e r = None \<and> sourcePass r = name @ '':'' @ secret \<and> CHR '':'' \<notin> set name \<longrightarrow>
      credentials e r = Some (name, secret)) \<and>
   (\<forall>enc payload.
      headerGet r ''Authorization'' = ''Basic '' @ enc \<and>
      b64decode e enc = Some payload \<and> CHR '':'' \<notin> set payload \<longrightarrow>
      parseBasicAuth e r = None) \<and>
   (parseBasicAuth e r = None \<and> CHR '':'' \<notin> set (sourcePass r) \<longrightarrow>
      credentials e r = None \<and> \<not> authorized e cfg r \<and>
      (\<forall>s p. pubs s p = PAuth \<longrightarrow>
         step s (Auth p r e) = Some (setPub p PUnauthorized (s\<lparr>streamActive := False\<rparr>))))"
proof (intro conjI allI impI)
  fix enc name secret
  assume h: "headerGet r ''Authorization'' = ''Basic '' @ enc \<and>
      b64decode e enc = Some (name @ '':'' @ secret) \<and> CHR '':'' \<notin> set name"
  then show pb: "parseBasicAuth e r = Some (name, secret)"
    by (simp add: parseBasicAuth_def HasPrefix_def Let_def SplitN2_first)
  then show "credentials e r = Some (name, secret)"
    by (simp add: credentials_def)
next
  fix name secret
  assume "parseBasicAuth e r = None \<and> sourcePass r = name @ '':'' @ secret \<and> CHR '':'' \<notin> set name"
  then show "credentials e r = Some (name, secret)"
    by (simp add: credentials_def Let_def SplitN2_first)
next
  fix enc payload
  assume "headerGet r ''Authorization'' = ''Basic '' @ enc \<and>
      b64decode e enc = Some payload \<and> CHR '':'' \<notin> set payload"
  then show "parseBasicAuth e r = None"
    by (simp add: parseBasicAuth_def HasPrefix_def Let_def SplitN2_none)
next
  assume h: "parseBasicAuth e r = None \<and> CHR '':'' \<notin> set (sourcePass r)"
  then show c: "credentials e r = None"
    by (simp add: credentials_def Let_def SplitN2_none)
  then show a: "\<not> authorized e cfg r"
    by (simp add: authorized_def)
  fix s :: server and p
  assume "pubs s p = PAuth"
  with h show "step s (Auth p r e) = Some (setPub p PUnauthorized (s\<lparr>streamActive := False\<rparr>))"
    by (simp add: authorized_def credentials_def Let_def SplitN2_none)
qed

theorem credentials_first_colon_witness:
  "credentials acceptEnv (mkRequest ''Basic ZGo6cGE6c3M='' '''' '''') = Some (''dj'', ''pa:ss'') \<and>
   credentials acceptEnv (mkRequest '''' '''' ''dj:pa:ss'') = Some (''dj'', ''pa:ss'') \<and>
   parseBasicAuth acceptEnv (mkRequest ''Basic bm9jb2xvbg=='' '''' '''') = None \<and>
   credentials acceptEnv (mkRequest '''' ''hackme'' ''dj:pw'') = None \<and>
   step (setPub 0 PAuth (Start demoConfig)) (Auth 0 (mkRequest '''' ''hackme'' ''dj:pw'') acceptEnv)
     = Some (setPub 0 PUnauthorized (setPub 0 PAuth (Start demoConfig)\<lparr>streamActive := False\<rparr>))"
proof -
  have b: "b64decode acceptEnv ''ZGo6cGE6c3M='' = Some (''dj'' @ '':'' @ ''pa:ss'')"
          "b64decode acceptEnv ''bm9jb2xvbg=='' = Some ''nocolon''"
    by (simp_all add: acceptEnv_def demoEnv_def)
  have n1: "parseBasicAuth acceptEnv (mkRequest '''' '''' ''dj:pa:ss'') = None"
           "parseBasicAuth acceptEnv (mkRequest '''' ''hackme'' ''dj:pw'') = None"
    by (simp_all add: parseBasicAuth_def mkRequest_def)
  have s1: "sourcePass (mkRequest '''' '''' ''dj:pa:ss'') = ''dj'' @ '':'' @ ''pa:ss''"
           "sourcePass (mkRequest '''' ''hackme'' ''dj:pw'') = ''hackme''"
    by (simp_all add: sourcePass_def mkRequest_def)
  have p: "pubs (setPub 0 PAuth (Start demoConfig)) 0 = PAuth"
    by (simp add: setPub_def)
  show ?thesis
    using credentials_first_colon [of "mkRequest ''Basic ZGo6cGE6c3M='' '''' ''''" acceptEnv demoConfig]
          credentials_first_colon [of "mkRequest '''' '''' ''dj:pa:ss''" acceptEnv demoConfig]
          credentials_first_colon [of "mkRequest ''Basic bm9jb2xvbg=='' '''' ''''" acceptEnv demoConfig]
          credentials_first_colon [of "mkRequest '''' ''hackme'' ''dj:pw''" acceptEnv demoConfig]
          b n1 s1 p
    by (simp add: mkRequest_def)
qed

text \<open>
  C10, as the specification states it, fails: a value with no colon does not by itself
  get the request rejected. A Basic payload \<^verbatim>\<open>nocolon\<close> beside an \<^verbatim>\<open>X-Source-Password\<close> of
  \<^verbatim>\<open>dj:pw\<close>, and a \<^verbatim>\<open>password\<close> parameter \<^verbatim>\<open>letmein\<close> beside the same header, both yield the
  pair of the header, and the request goes on to begin its session.
\<close>

theorem no_colon_not_rejected_counterexample:
  "b64decode acceptEnv ''bm9jb2xvbg=='' = Some ''nocolon'' \<and> CHR '':'' \<notin> set ''nocolon'' \<and>
   credentials acceptEnv (mkRequest ''Basic bm9jb2xvbg=='' ''dj:pw'' '''') = Some (''dj'', ''pw'') \<and>
   CHR '':'' \<notin> set ''letmein'' \<and>
   credentials acceptEnv (mkRequest '''' ''dj:pw'' ''letmein'') = Some (''dj'', ''pw'') \<and>
   step (setPub 0 PAuth (Start demoConfig)) (Auth 0 (mkRequest '''' ''dj:pw'' ''letmein'') acceptEnv)
     = Some (setPub 0 PBegin (setPub 0 PAuth (Start demoConfig)))"
  by (simp add: credentials_def parseBasicAuth_def sourcePass_def mkRequest_def acceptEnv_def demoEnv_def
      HasPrefix_def SplitN2_def Let_def authorized_def Authenticate_def NewAuthClient_def setPub_def)

subsection \<open>Runs of the server\<close>

lemma run_append: "run s (es @ fs) = (case run s es of None \<Rightarrow> None | Some s' \<Rightarrow> run s' fs)"
  by (induction es arbitrary: s) (auto split: option.splits)

lemma run_invariant:
  assumes init: "P s0"
      and pres: "\<And>s e s'. P s \<Longrightarrow> step s e = Some s' \<Longrightarrow> P s'"
      and run: "run s0 es = Some s"
  shows "P s"
  using run init
proof (induction es arbitrary: s0)
  case Nil
  then show ?case by simp
next
  case (Cons e es)
  then show ?case by (auto split: option.splits intro: pres)
qed

lemmas step_defs = setPub_def setLis_def pubStep_def lisStep_def onceDo_def ringStep_def
  fanout_def clearListeners_def makeChan_def registerListener_def unregisterListener_def
  newStreamCtx_def resetOnce_def resetGate_def resetRing_def writeOut_def sliceBytes_def
  readInto_def Let_def

lemmas Start_defs = Start_def zero_def resetStreamState_def newStreamCtx_def
  resetOnce_def resetGate_def resetRing_def Let_def

subsection \<open>The registry holds open channels\<close>

lemma registryOpen_Start: "registryOpen (Start cfg)"
  by (simp add: registryOpen_def Start_defs)

lemma registryOpen_step:
  assumes "registryOpen s" and "step s e = Some s'"
  shows "registryOpen s'"
proof (cases e)
  case (Pub p)
  with assms show ?thesis
    by (cases "pubs s p")
       (auto simp: registryOpen_def step_defs trySend_def split: if_splits sum.splits option.splits)
next
  case (Lis l)
  with assms show ?thesis
    by (cases "lsts s l")
       (auto simp: registryOpen_def step_defs less_Suc_eq split: if_splits)
next
  case (Recv l)
  with assms show ?thesis
    by (cases "lsts s l")
       (auto simp: registryOpen_def step_defs split: if_splits list.splits)
qed (use assms in \<open>auto simp: registryOpen_def step_defs split: if_splits publisher.splits listener.splits\<close>)

lemma registryOpen_run: "run (Start cfg) es = Some s \<Longrightarrow> registryOpen s"
  by (rule run_invariant [where P = registryOpen, OF registryOpen_Start registryOpen_step])

lemmas eval_defs = Start_def zero_def resetStreamState_def step_defs authorized_def
  credentials_def parseBasicAuth_def sourcePass_def mkRequest_def djRequest_def acceptEnv_def
  rejectEnv_def demoEnv_def demoConfig_def HasPrefix_def SplitN2_def Authenticate_def
  NewAuthClient_def authHTTPRequest_def trySend_def listenerChanCap_def ringWrite_def
  maxRingBufferSize_def admission_def readCycle_def joinSteps_def cleanupSteps_def

lemma case_SomeE:
  assumes "case x of None \<Rightarrow> False | Some s \<Rightarrow> P s"
  obtains s where "x = Some s" and "P s"
  using assms by (cases x) auto

subsection \<open>Fan-out\<close>

lemma fanout_total: "registryOpen s \<Longrightarrow> fanout data s \<noteq> None"
  by (auto simp: fanout_def registryOpen_def)

lemma fanout_chans:
  "fanout data s = Some s' \<Longrightarrow>
   chans s' c = (if c \<in> listeners s then trySend data (chans s c) else chans s c)"
  by (auto simp: fanout_def split: if_splits)

text \<open>
  In every state the server can reach, the fan-out of a chunk (the second critical
  section of \<^verbatim>\<open>broadcast\<close>) completes: no send panics and none blocks. It leaves the
  registry as it is, appends the slice to the buffer of every registered channel that has
  room, behind the slices already waiting there, and leaves a full channel as it is; what
  happens to one channel depends on that channel alone.
\<close>

lemma fanout_enqueues:
  assumes "run (Start cfg) es = Some s" and "pubs s p = PFan n e"
  shows "\<exists>s'. step s (Pub p) = Some s' \<and>
           pubs s' p = (if e then PDefer1 else PLoop) \<and>
           listeners s' = listeners s \<and>
           (\<forall>c \<in> listeners s.
              (length (queue (chans s c)) < listenerChanCap \<longrightarrow>
                 queue (chans s' c) = queue (chans s c) @ [(p, n)]) \<and>
              (\<not> length (queue (chans s c)) < listenerChanCap \<longrightarrow>
                 queue (chans s' c) = queue (chans s c)))"
proof -
  have "registryOpen s" using assms(1) by (rule registryOpen_run)
  then obtain t where t: "fanout (p, n) s = Some t"
    using fanout_total [of s "(p, n)"] by auto
  then have ch: "\<And>c. chans t c = (if c \<in> listeners s then trySend (p, n) (chans s c) else chans s c)"
    by (rule fanout_chans)
  have ls: "listeners t = listeners s" and pb: "pubs t = pubs s"
    using t by (auto simp: fanout_def split: if_splits)
  let ?s' = "setPub p (if e then PDefer1 else PLoop) t"
  have "step s (Pub p) = Some ?s'"
    using assms(2) t by (simp add: pubStep_def)
  moreover have "pubs ?s' p = (if e then PDefer1 else PLoop)"
    by (simp add: setPub_def)
  moreover have "listeners ?s' = listeners s"
    using ls by (simp add: setPub_def)
  moreover have "\<forall>c \<in> listeners s.
              (length (queue (chans s c)) < listenerChanCap \<longrightarrow>
                 queue (chans ?s' c) = queue (chans s c) @ [(p, n)]) \<and>
              (\<not> length (queue (chans s c)) < listenerChanCap \<longrightarrow>
                 queue (chans ?s' c) = queue (chans s c))"
    using ch by (simp add: setPub_def trySend_def)
  ultimately show ?thesis by blast
qed

lemmas obs_defs = wrote_def inflight_def pendingCopy_def held_def queued_def sessionStep_def
  servedStep_def

text \<open>
  C5 at a concrete run. What goes into the channels is a slice of the publisher's read
  buffer, which the next read overwrites. Publisher 0 publishes the chunks \<open>[1]\<close>, \<open>[2]\<close>
  and \<open>[3]\<close>; listener 0 joins after the first and is sent it as history; its channel
  has room for the other two, and both fan-outs go through. When it takes them from its
  channel it writes \<open>[3]\<close> twice: the chunk \<open>[2]\<close> never reaches it.
\<close>

theorem overwritten_chunk:
  "written (Start demoConfig) overwriteTrace = [1, 2, 3] \<and>
   (case run (Start demoConfig) overwriteTrace of
      None \<Rightarrow> False
    | Some s \<Rightarrow> louts s 0 = [1, 3, 3] \<and> lsts s 0 = LLoop 2 0 \<and> queue (chans s 0) = [])"
  by (simp add: overwriteTrace_def eval_defs obs_defs)

text \<open>
  The same happens to a chunk the listener has already received, when the publisher's
  next read comes before the listener's \<^verbatim>\<open>w.Write\<close>: the channel is empty at that read.
\<close>

lemma received_chunk_overwritten:
  "written (Start demoConfig) heldTrace = [1, 2, 3] \<and>
   (case run (Start demoConfig) heldTrace of
      None \<Rightarrow> False
    | Some s \<Rightarrow> louts s 0 = [1, 3, 3] \<and> lsts s 0 = LLoop 2 0 \<and> queue (chans s 0) = [])"
  by (simp add: heldTrace_def eval_defs obs_defs)

subsection \<open>Unauthorized requests\<close>

lemma authorized_iff:
  "authorized e cfg r \<longleftrightarrow>
     (\<exists>u pw. credentials e r = Some (u, pw) \<and>
        Authenticate e (NewAuthClient (AuthURL cfg) (APIToken cfg)) u pw = (True, None))"
  by (auto simp: authorized_def Let_def split: option.splits prod.splits)

text \<open>
  C7. An ingest request that passed the exclusivity check and whose credentials are
  missing, or are rejected by \<^verbatim>\<open>Authenticate\<close>, is answered 401; the step releases the
  flag and changes nothing else, so that the handler as a whole (\<^verbatim>\<open>CompareAndSwap\<close> and
  rejection) leaves the package variables exactly as it found them.
\<close>

theorem unauthorized_releases:
  assumes "credentials e r = None \<or>
           (\<exists>u pw. credentials e r = Some (u, pw) \<and>
              Authenticate e (NewAuthClient (AuthURL (appConfig s)) (APIToken (appConfig s))) u pw
                \<noteq> (True, None))"
  shows "(pubs s p = PAuth \<longrightarrow>
            step s (Auth p r e) = Some (setPub p PUnauthorized (s\<lparr>streamActive := False\<rparr>))) \<and>
         (pubs s p = PNew \<and> \<not> streamActive s \<longrightarrow>
            run s [Connect p, Auth p r e] = Some (setPub p PUnauthorized s))"
proof -
  have na: "\<not> authorized e (appConfig s) r"
    using assms by (auto simp: authorized_iff)
  show ?thesis using na by (auto simp: setPub_def)
qed


theorem unauthorized_releases_witness:
  "step (setPub 0 PAuth ((Start demoConfig)\<lparr>streamActive := True\<rparr>)) (Auth 0 (mkRequest '''' '''' '''') acceptEnv)
     = Some (setPub 0 PUnauthorized (setPub 0 PAuth ((Start demoConfig)\<lparr>streamActive := True\<rparr>)\<lparr>streamActive := False\<rparr>)) \<and>
   run (Start demoConfig) [Connect 0, Auth 0 djRequest rejectEnv]
     = Some (setPub 0 PUnauthorized (Start demoConfig))"
proof -
  have c1: "credentials acceptEnv (mkRequest '''' '''' '''') = None"
    by (simp add: credentials_def parseBasicAuth_def sourcePass_def mkRequest_def)
  have c2: "credentials rejectEnv djRequest = Some (''dj'', ''pw'')"
    by (simp add: credentials_def parseBasicAuth_def sourcePass_def mkRequest_def djRequest_def SplitN2_def)
  have a2: "Authenticate rejectEnv (NewAuthClient (AuthURL (appConfig (Start demoConfig)))
              (APIToken (appConfig (Start demoConfig)))) ''dj'' ''pw'' \<noteq> (True, None)"
    by (simp add: Authenticate_def rejectEnv_def demoEnv_def)
  have p1: "pubs (setPub 0 PAuth ((Start demoConfig)\<lparr>streamActive := True\<rparr>)) 0 = PAuth"
    by (simp add: setPub_def)
  have p2: "pubs (Start demoConfig) 0 = PNew \<and> \<not> streamActive (Start demoConfig)"
    by (simp add: Start_defs)
  show ?thesis
    using unauthorized_releases [of acceptEnv "mkRequest '''' '''' ''''"
            "setPub 0 PAuth ((Start demoConfig)\<lparr>streamActive := True\<rparr>)" 0] c1 p1
          unauthorized_releases [of rejectEnv djRequest "Start demoConfig" 0] c2 a2 p2
    by simp
qed

subsection \<open>Exclusivity\<close>

lemma flagInv_Start: "flagInv (Start cfg)"
  by (simp add: flagInv_def Start_defs)

text \<open>What a step does to the flag and to the publishers.\<close>

lemma step_other_pubs:
  assumes "step s e = Some s'" and "publisherOf e \<noteq> Some q"
  shows "pubs s' q = pubs s q"
proof (cases e)
  case (Pub p)
  with assms show ?thesis
    by (cases "pubs s p")
       (auto simp: step_defs split: if_splits sum.splits option.splits)
next
  case (Lis l)
  with assms show ?thesis
    by (cases "lsts s l") (auto simp: step_defs split: if_splits)
next
  case (Recv l)
  with assms show ?thesis
    by (cases "lsts s l") (auto simp: step_defs split: if_splits list.splits)
next
  case (Connect p)
  with assms show ?thesis
    by (cases "pubs s p") (auto simp: step_defs split: if_splits)
next
  case (Auth p r en)
  with assms show ?thesis
    by (cases "pubs s p") (auto simp: step_defs split: if_splits)
next
  case (Read p d er)
  with assms show ?thesis
    by (cases "pubs s p") (auto simp: step_defs split: if_splits)
qed (use assms in \<open>auto simp: step_defs split: if_splits listener.splits\<close>)

lemma step_listener_flag:
  assumes "step s e = Some s'" and "publisherOf e = None"
  shows "streamActive s' = streamActive s"
proof (cases e)
  case (Lis l)
  with assms show ?thesis
    by (cases "lsts s l") (auto simp: step_defs split: if_splits)
next
  case (Recv l)
  with assms show ?thesis
    by (cases "lsts s l") (auto simp: step_defs split: if_splits list.splits)
qed (use assms in \<open>auto simp: step_defs split: if_splits listener.splits\<close>)

lemma step_publisher_flag:
  assumes "step s e = Some s'" and "publisherOf e = Some p"
  shows "(holdsFlag (pubs s' p) = holdsFlag (pubs s p) \<and> streamActive s' = streamActive s) \<or>
         (\<not> holdsFlag (pubs s p) \<and> \<not> streamActive s \<and> holdsFlag (pubs s' p) \<and> streamActive s') \<or>
         (holdsFlag (pubs s p) \<and> \<not> holdsFlag (pubs s' p) \<and> \<not> streamActive s')"
proof (cases e)
  case (Pub p')
  with assms show ?thesis
    by (cases "pubs s p")
       (auto simp: step_defs split: if_splits sum.splits option.splits)
next
  case (Connect p')
  with assms show ?thesis
    by (cases "pubs s p") (auto simp: step_defs split: if_splits)
next
  case (Auth p' r en)
  with assms show ?thesis
    by (cases "pubs s p") (auto simp: step_defs split: if_splits)
next
  case (Read p' d er)
  with assms show ?thesis
    by (cases "pubs s p") (auto simp: step_defs split: if_splits)
qed (use assms in auto)

lemma flagInv_step:
  assumes inv: "flagInv s" and st: "step s e = Some s'"
  shows "flagInv s'"
proof (cases "publisherOf e")
  case None
  then have "\<And>q. pubs s' q = pubs s q"
    using step_other_pubs [OF st] by simp
  moreover have "streamActive s' = streamActive s"
    using step_listener_flag [OF st None] .
  ultimately show ?thesis using inv by (simp add: flagInv_def)
next
  case (Some p)
  have other: "\<And>q. q \<noteq> p \<Longrightarrow> pubs s' q = pubs s q"
    using step_other_pubs [OF st] Some by simp
  have uniq: "\<And>a b. holdsFlag (pubs s a) \<Longrightarrow> holdsFlag (pubs s b) \<Longrightarrow> a = b"
    and act: "streamActive s \<longleftrightarrow> (\<exists>a. holdsFlag (pubs s a))"
    using inv by (auto simp: flagInv_def)
  from step_publisher_flag [OF st Some]
  consider (same) "holdsFlag (pubs s' p) = holdsFlag (pubs s p)" "streamActive s' = streamActive s"
    | (take) "\<not> holdsFlag (pubs s p)" "\<not> streamActive s" "holdsFlag (pubs s' p)" "streamActive s'"
    | (release) "holdsFlag (pubs s p)" "\<not> holdsFlag (pubs s' p)" "\<not> streamActive s'"
    by blast
  then show ?thesis
  proof cases
    case same
    have "\<And>a. holdsFlag (pubs s' a) = holdsFlag (pubs s a)"
      using other same(1) by metis
    then show ?thesis using inv same(2) by (simp add: flagInv_def)
  next
    case take
    have none: "\<And>a. \<not> holdsFlag (pubs s a)" using act take(2) by blast
    have "\<And>a. holdsFlag (pubs s' a) \<longleftrightarrow> a = p"
      using other none take(3) by metis
    then show ?thesis using take(4) by (auto simp: flagInv_def)
  next
    case release
    have only: "\<And>a. holdsFlag (pubs s a) \<Longrightarrow> a = p" using uniq release(1) by blast
    have "\<And>a. \<not> holdsFlag (pubs s' a)"
      using other only release(2) by metis
    then show ?thesis using release(3) by (simp add: flagInv_def)
  qed
qed

lemma flagInv_run: "run (Start cfg) es = Some s \<Longrightarrow> flagInv s"
  by (rule run_invariant [where P = flagInv, OF flagInv_Start flagInv_step])

text \<open>
  C2. In every state the server can reach, whatever the interleaving: at most one
  publisher holds the exclusivity flag, \<^verbatim>\<open>streamActive\<close> is set exactly while one does, and
  a connection attempt is answered 409 with no change to the package variables while a
  publisher holds the flag, and is admitted once the flag has been released.
\<close>

theorem exclusivity:
  assumes "run (Start cfg) es = Some s"
  shows "(\<forall>p q. holdsFlag (pubs s p) \<and> holdsFlag (pubs s q) \<longrightarrow> p = q) \<and>
         (streamActive s \<longleftrightarrow> (\<exists>p. holdsFlag (pubs s p))) \<and>
         (\<forall>q. pubs s q = PNew \<longrightarrow>
            step s (Connect q) =
              (if \<exists>p. holdsFlag (pubs s p) then Some (setPub q PConflict s)
               else Some (setPub q PAuth (s\<lparr>streamActive := True\<rparr>))))"
proof -
  have inv: "flagInv s" using assms by (rule flagInv_run)
  then have act: "streamActive s \<longleftrightarrow> (\<exists>p. holdsFlag (pubs s p))"
    by (simp add: flagInv_def)
  have "\<forall>q. pubs s q = PNew \<longrightarrow>
            step s (Connect q) =
              (if \<exists>p. holdsFlag (pubs s p) then Some (setPub q PConflict s)
               else Some (setPub q PAuth (s\<lparr>streamActive := True\<rparr>)))"
    using act by simp
  with inv show ?thesis by (simp add: flagInv_def)
qed

lemma conflictTrace_state:
  "case run (Start demoConfig) conflictTrace of
     None \<Rightarrow> False
   | Some s \<Rightarrow> pubs s 0 = PBegin \<and> pubs s 1 = PConflict \<and> pubs s 2 = PNew"
  by (simp add: conflictTrace_def eval_defs)

theorem exclusivity_witness:
  "case run (Start demoConfig) conflictTrace of
     None \<Rightarrow> False
   | Some s \<Rightarrow>
       pubs s 0 = PBegin \<and> pubs s 1 = PConflict \<and> pubs s 2 = PNew \<and> streamActive s \<and>
       step s (Connect 2) = Some (setPub 2 PConflict s)"
proof -
  from conflictTrace_state obtain s where r: "run (Start demoConfig) conflictTrace = Some s"
    and ps: "pubs s 0 = PBegin \<and> pubs s 1 = PConflict \<and> pubs s 2 = PNew"
    by (rule case_SomeE)
  have h: "\<exists>p. holdsFlag (pubs s p)"
  proof
    show "holdsFlag (pubs s 0)" using ps by simp
  qed
  note ex = exclusivity [OF r]
  have act: "streamActive s"
    using ex [THEN conjunct2, THEN conjunct1] h by (rule iffD2)
  have "pubs s 2 = PNew \<longrightarrow> step s (Connect 2) =
          (if \<exists>p. holdsFlag (pubs s p) then Some (setPub 2 PConflict s)
           else Some (setPub 2 PAuth (s\<lparr>streamActive := True\<rparr>)))"
    using ex [THEN conjunct2, THEN conjunct2] by (rule spec)
  then have st: "step s (Connect 2) = Some (setPub 2 PConflict s)"
    using h ps by (simp only: if_True simp_thms)
  show ?thesis
    unfolding r using ps act st by (simp only: option.case simp_thms)
qed

subsection \<open>What a listener waits on\<close>

lemma refsInv_Start: "refsInv (Start cfg)"
  by (simp add: refsInv_def Start_defs)

lemma step_other_lsts:
  assumes "step s e = Some s'" and "listenerOf e \<noteq> Some l"
  shows "lsts s' l = lsts s l"
proof (cases e)
  case (Pub p)
  with assms show ?thesis
    by (cases "pubs s p")
       (auto simp: step_defs split: if_splits sum.splits option.splits)
next
  case (Lis l')
  with assms show ?thesis
    by (cases "lsts s l'") (auto simp: step_defs split: if_splits)
next
  case (Recv l')
  with assms show ?thesis
    by (cases "lsts s l'") (auto simp: step_defs split: if_splits list.splits)
next
  case (Connect p)
  with assms show ?thesis
    by (cases "pubs s p") (auto simp: step_defs split: if_splits)
next
  case (Auth p r en)
  with assms show ?thesis
    by (cases "pubs s p") (auto simp: step_defs split: if_splits)
next
  case (Read p d er)
  with assms show ?thesis
    by (cases "pubs s p") (auto simp: step_defs split: if_splits)
next
  case (FirstData l')
  with assms show ?thesis
    by (cases "lsts s l'") (auto simp: step_defs split: if_splits)
next
  case (ClientGone l')
  with assms show ?thesis
    by (cases "lsts s l'") (auto simp: step_defs split: if_splits)
next
  case (CtxDone l')
  with assms show ?thesis
    by (cases "lsts s l'") (auto simp: step_defs split: if_splits)
next
  case (Snapshot l' ok)
  with assms show ?thesis
    by (cases "lsts s l'") (auto simp: step_defs split: if_splits)
next
  case (Send l' ok)
  with assms show ?thesis
    by (cases "lsts s l'") (auto simp: step_defs split: if_splits)
qed

lemma run_other_lsts:
  "run s es = Some s' \<Longrightarrow> \<forall>e \<in> set es. listenerOf e \<noteq> Some l \<Longrightarrow> lsts s' l = lsts s l"
proof (induction es arbitrary: s)
  case Nil
  then show ?case by simp
next
  case (Cons e es)
  from Cons.prems(1) obtain t where t: "step s e = Some t" and r: "run t es = Some s'"
    by (auto split: option.splits)
  have "lsts t l = lsts s l" using step_other_lsts [OF t] Cons.prems(2) by simp
  moreover have "lsts s' l = lsts t l" using Cons.IH [OF r] Cons.prems(2) by simp
  ultimately show ?case by simp
qed

lemma refsInv_step:
  assumes inv: "refsInv s" and st: "step s e = Some s'"
  shows "refsInv s'"
proof -
  have tk: "\<And>l c. tokenOf (lsts s l) = Some c \<Longrightarrow> c < nextCtx s"
    and gt: "\<And>l g. gateOf (lsts s l) = Some g \<Longrightarrow> g < nextGate s"
    and cur: "streamCancelFn s = Some (streamCtx s)" "streamCtx s < nextCtx s"
             "firstData s < nextGate s"
    using inv by (auto simp: refsInv_def)
  have other: "\<And>l. listenerOf e \<noteq> Some l \<Longrightarrow> lsts s' l = lsts s l"
    using step_other_lsts [OF st] by simp
  have glob: "streamCancelFn s' = Some (streamCtx s') \<and> streamCtx s' < nextCtx s' \<and>
              firstData s' < nextGate s' \<and> nextCtx s \<le> nextCtx s' \<and> nextGate s \<le> nextGate s'"
  proof (cases e)
    case (Pub p)
    with st cur show ?thesis
      by (cases "pubs s p")
         (auto simp: step_defs split: if_splits sum.splits option.splits)
  next
    case (Lis l)
    with st cur show ?thesis
      by (cases "lsts s l") (auto simp: step_defs split: if_splits)
  next
    case (Recv l)
    with st cur show ?thesis
      by (cases "lsts s l") (auto simp: step_defs split: if_splits list.splits)
  next
    case (Connect p)
    with st cur show ?thesis
      by (cases "pubs s p") (auto simp: step_defs split: if_splits)
  next
    case (Auth p r en)
    with st cur show ?thesis
      by (cases "pubs s p") (auto simp: step_defs split: if_splits)
  next
    case (Read p d er)
    with st cur show ?thesis
      by (cases "pubs s p") (auto simp: step_defs split: if_splits)
  next
    case (FirstData l)
    with st cur show ?thesis
      by (cases "lsts s l") (auto simp: step_defs split: if_splits)
  next
    case (ClientGone l)
    with st cur show ?thesis
      by (cases "lsts s l") (auto simp: step_defs split: if_splits)
  next
    case (CtxDone l)
    with st cur show ?thesis
      by (cases "lsts s l") (auto simp: step_defs split: if_splits)
  next
    case (Snapshot l ok)
    with st cur show ?thesis
      by (cases "lsts s l") (auto simp: step_defs split: if_splits)
  next
    case (Send l ok)
    with st cur show ?thesis
      by (cases "lsts s l") (auto simp: step_defs split: if_splits)
  qed
  have own: "\<And>l. listenerOf e = Some l \<Longrightarrow>
               (\<forall>c. tokenOf (lsts s' l) = Some c \<longrightarrow> tokenOf (lsts s l) = Some c \<or> c = streamCtx s) \<and>
               (\<forall>g. gateOf (lsts s' l) = Some g \<longrightarrow> gateOf (lsts s l) = Some g \<or> g = firstData s)"
  proof -
    fix l assume "listenerOf e = Some l"
    then consider "e = Lis l" | "e = FirstData l" | "e = ClientGone l" | "e = CtxDone l"
      | ok where "e = Snapshot l ok" | "e = Recv l" | ok where "e = Send l ok"
      by (cases e) auto
    then show "(\<forall>c. tokenOf (lsts s' l) = Some c \<longrightarrow> tokenOf (lsts s l) = Some c \<or> c = streamCtx s) \<and>
               (\<forall>g. gateOf (lsts s' l) = Some g \<longrightarrow> gateOf (lsts s l) = Some g \<or> g = firstData s)"
      using st
      by cases
         ((cases "lsts s l"),
          (auto simp: step_defs split: if_splits list.splits)[11])+
  qed
  have tk': "\<And>l c. tokenOf (lsts s' l) = Some c \<Longrightarrow> c < nextCtx s'"
  proof -
    fix l c assume h: "tokenOf (lsts s' l) = Some c"
    have "c < nextCtx s"
    proof (cases "listenerOf e = Some l")
      case True
      with own h have "tokenOf (lsts s l) = Some c \<or> c = streamCtx s" by blast
      then show ?thesis using tk cur(2) by blast
    next
      case False
      then show ?thesis using other h tk by simp
    qed
    then show "c < nextCtx s'" using glob by linarith
  qed
  have gt': "\<And>l g. gateOf (lsts s' l) = Some g \<Longrightarrow> g < nextGate s'"
  proof -
    fix l g assume h: "gateOf (lsts s' l) = Some g"
    have "g < nextGate s"
    proof (cases "listenerOf e = Some l")
      case True
      with own h have "gateOf (lsts s l) = Some g \<or> g = firstData s" by blast
      then show ?thesis using gt cur(3) by blast
    next
      case False
      then show ?thesis using other h gt by simp
    qed
    then show "g < nextGate s'" using glob by linarith
  qed
  show ?thesis
    unfolding refsInv_def using glob tk' gt' by blast
qed

lemma refsInv_run: "run (Start cfg) es = Some s \<Longrightarrow> refsInv s"
  by (rule run_invariant [where P = refsInv, OF refsInv_Start refsInv_step])

lemma step_fires_current:
  assumes "refsInv s" and "step s e = Some s'"
  shows "cancelled s' \<subseteq> insert (streamCtx s) (cancelled s) \<and>
         closedGates s' \<subseteq> insert (firstData s) (closedGates s)"
proof (cases e)
  case (Pub p)
  with assms show ?thesis
    by (cases "pubs s p")
       (auto simp: refsInv_def step_defs split: if_splits sum.splits option.splits)
next
  case (Lis l)
  with assms show ?thesis
    by (cases "lsts s l") (auto simp: step_defs split: if_splits)
next
  case (Recv l)
  with assms show ?thesis
    by (cases "lsts s l") (auto simp: step_defs split: if_splits list.splits)
next
  case (Connect p)
  with assms show ?thesis
    by (cases "pubs s p") (auto simp: step_defs split: if_splits)
next
  case (Auth p r en)
  with assms show ?thesis
    by (cases "pubs s p") (auto simp: step_defs split: if_splits)
next
  case (Read p d er)
  with assms show ?thesis
    by (cases "pubs s p") (auto simp: step_defs split: if_splits)
next
  case (FirstData l)
  with assms show ?thesis
    by (cases "lsts s l") (auto simp: step_defs split: if_splits)
next
  case (ClientGone l)
  with assms show ?thesis
    by (cases "lsts s l") (auto simp: step_defs split: if_splits)
next
  case (CtxDone l)
  with assms show ?thesis
    by (cases "lsts s l") (auto simp: step_defs split: if_splits)
next
  case (Snapshot l ok)
  with assms show ?thesis
    by (cases "lsts s l") (auto simp: step_defs split: if_splits)
next
  case (Send l ok)
  with assms show ?thesis
    by (cases "lsts s l") (auto simp: step_defs split: if_splits)
qed

text \<open>
  C4, as the code has it. A listener captures the context in \<^verbatim>\<open>streamCtx\<close> in its first
  step, and the gate in \<^verbatim>\<open>firstData\<close> in its next step, when it enters the \<^verbatim>\<open>select\<close>.
  In every state the server can reach: what a listener holds is already allocated, so a
  context or gate made later is another object; no step of another goroutine, whatever
  it does to \<^verbatim>\<open>streamCtx\<close> and \<^verbatim>\<open>firstData\<close>, changes what the listener holds; the listener
  is woken for first bytes exactly when the gate it holds is closed and for cancellation
  exactly when the context it holds is cancelled; and a step closes no gate but the one in
  \<^verbatim>\<open>firstData\<close> and cancels no context but the one in \<^verbatim>\<open>streamCtx\<close>.
\<close>

theorem captured_references:
  assumes "run (Start cfg) es = Some s"
  shows "(\<forall>l. lsts s l = LNew \<longrightarrow> step s (Lis l) = Some (setLis l (LCaptured (streamCtx s)) s)) \<and>
         (\<forall>l c. lsts s l = LCaptured c \<longrightarrow>
            step s (Lis l) = Some (setLis l (LWait c (firstData s)) s)) \<and>
         (\<forall>l c. tokenOf (lsts s l) = Some c \<longrightarrow> c < nextCtx s) \<and>
         (\<forall>l g. gateOf (lsts s l) = Some g \<longrightarrow> g < nextGate s) \<and>
         (\<forall>l fs s'. run s fs = Some s' \<and> (\<forall>e \<in> set fs. listenerOf e \<noteq> Some l) \<longrightarrow>
            lsts s' l = lsts s l) \<and>
         (\<forall>l c g. lsts s l = LWait c g \<longrightarrow>
            (step s (FirstData l) \<noteq> None \<longleftrightarrow> g \<in> closedGates s) \<and>
            (step s (CtxDone l) \<noteq> None \<longleftrightarrow> c \<in> cancelled s)) \<and>
         (\<forall>l c ch. lsts s l = LLoop c ch \<longrightarrow>
            (step s (CtxDone l) \<noteq> None \<longleftrightarrow> c \<in> cancelled s)) \<and>
         (\<forall>e s'. step s e = Some s' \<longrightarrow>
            cancelled s' \<subseteq> insert (streamCtx s) (cancelled s) \<and>
            closedGates s' \<subseteq> insert (firstData s) (closedGates s))"
proof -
  have inv: "refsInv s" using assms by (rule refsInv_run)
  have a: "\<forall>l. lsts s l = LNew \<longrightarrow> step s (Lis l) = Some (setLis l (LCaptured (streamCtx s)) s)"
    by (simp add: lisStep_def)
  have b: "\<forall>l c. lsts s l = LCaptured c \<longrightarrow>
            step s (Lis l) = Some (setLis l (LWait c (firstData s)) s)"
    by (simp add: lisStep_def)
  have c: "\<forall>l c. tokenOf (lsts s l) = Some c \<longrightarrow> c < nextCtx s"
    and d: "\<forall>l g. gateOf (lsts s l) = Some g \<longrightarrow> g < nextGate s"
    using inv by (simp_all add: refsInv_def)
  have e: "\<forall>l fs s'. run s fs = Some s' \<and> (\<forall>e \<in> set fs. listenerOf e \<noteq> Some l) \<longrightarrow>
            lsts s' l = lsts s l"
    using run_other_lsts by blast
  have f: "\<forall>l c g. lsts s l = LWait c g \<longrightarrow>
            (step s (FirstData l) \<noteq> None \<longleftrightarrow> g \<in> closedGates s) \<and>
            (step s (CtxDone l) \<noteq> None \<longleftrightarrow> c \<in> cancelled s)"
    by simp
  have g: "\<forall>l c ch. lsts s l = LLoop c ch \<longrightarrow>
            (step s (CtxDone l) \<noteq> None \<longleftrightarrow> c \<in> cancelled s)"
    by simp
  have h: "\<forall>e s'. step s e = Some s' \<longrightarrow>
            cancelled s' \<subseteq> insert (streamCtx s) (cancelled s) \<and>
            closedGates s' \<subseteq> insert (firstData s) (closedGates s)"
    using step_fires_current [OF inv] by blast
  from a b c d e f g h show ?thesis by blast
qed

lemma lateGateTrace_state:
  "case run (Start demoConfig) lateGateTrace of
     None \<Rightarrow> False
   | Some s \<Rightarrow>
       lsts s 0 = LWait 1 2 \<and> 1 \<notin> closedGates s \<and> 2 \<in> closedGates s \<and>
       firstData s = 2 \<and> streamCtx s = 4 \<and> pubs s 0 = PDone \<and> pubs s 1 = PRing 1 False"
  by (simp add: lateGateTrace_def eval_defs)

text \<open>
  C4, as the specification states it, fails: the gate is not captured together with the
  context. Listener 0 captures context 1 while gate 1 is in place; a session comes and
  goes, a second one starts and closes gate 2; the listener then enters its \<^verbatim>\<open>select\<close>
  with gate 2 and is woken by it, although gate 1 was never closed.
\<close>

theorem late_gate_counterexample:
  "(case run (Start demoConfig) [Lis 0] of
      None \<Rightarrow> False
    | Some s \<Rightarrow> lsts s 0 = LCaptured 1 \<and> streamCtx s = 1 \<and> firstData s = 1) \<and>
   (case run (Start demoConfig) lateGateTrace of
      None \<Rightarrow> False
    | Some s \<Rightarrow>
        lsts s 0 = LWait 1 2 \<and> 1 \<notin> closedGates s \<and> 2 \<in> closedGates s \<and>
        pubs s 0 = PDone \<and> pubs s 1 = PRing 1 False \<and>
        step s (FirstData 0) = Some (setLis 0 (LCheck 1) s))"
  by (simp add: lateGateTrace_def eval_defs)

lemma lateGateTrace_refs:
  "case run (Start demoConfig) lateGateTrace of
     None \<Rightarrow> False
   | Some s \<Rightarrow> lsts s 0 = LWait 1 2 \<and> 2 \<in> closedGates s \<and> 1 \<in> cancelled s"
  by (simp add: lateGateTrace_def eval_defs)

theorem captured_references_witness:
  "case run (Start demoConfig) lateGateTrace of
     None \<Rightarrow> False
   | Some s \<Rightarrow>
       lsts s 0 = LWait 1 2 \<and> 2 \<in> closedGates s \<and> 1 \<in> cancelled s \<and>
       1 < nextCtx s \<and> 2 < nextGate s \<and>
       step s (FirstData 0) \<noteq> None \<and> step s (CtxDone 0) \<noteq> None"
proof -
  from lateGateTrace_refs obtain s where r: "run (Start demoConfig) lateGateTrace = Some s"
    and ps: "lsts s 0 = LWait 1 2 \<and> 2 \<in> closedGates s \<and> 1 \<in> cancelled s"
    by (rule case_SomeE)
  note cr = captured_references [OF r]
  have tk: "\<forall>l c. tokenOf (lsts s l) = Some c \<longrightarrow> c < nextCtx s"
    and gt: "\<forall>l g. gateOf (lsts s l) = Some g \<longrightarrow> g < nextGate s"
    and wk: "\<forall>l c g. lsts s l = LWait c g \<longrightarrow>
            (step s (FirstData l) \<noteq> None \<longleftrightarrow> g \<in> closedGates s) \<and>
            (step s (CtxDone l) \<noteq> None \<longleftrightarrow> c \<in> cancelled s)"
    using cr by blast+
  have a: "1 < nextCtx s" using tk [THEN spec, of 0] ps by simp
  have b: "2 < nextGate s" using gt [THEN spec, of 0] ps by simp
  have c: "step s (FirstData 0) \<noteq> None \<and> step s (CtxDone 0) \<noteq> None"
    using wk [THEN spec, of 0] ps by blast
  show ?thesis
    using r ps a b c by (simp del: step.simps)
qed

subsection \<open>After the publisher has gone\<close>

text \<open>
  C6 at a concrete run. When the deferred function of \<^verbatim>\<open>streamHandler\<close> has run, the flag
  is released, the registry is empty, the channel of listener 0 is closed and its context
  is cancelled. Listener 1, connecting then, holds the new context and the new gate:
  neither wakes it, so it is not answered 503; it waits, and leaves without a status when
  its client goes away.
\<close>

theorem idle_listener_blocks:
  "case run (Start demoConfig) (sessionTrace @ [Lis 1, Lis 1]) of
     None \<Rightarrow> False
   | Some s \<Rightarrow>
       pubs s 0 = PDone \<and> \<not> streamActive s \<and> listeners s = {} \<and> closed (chans s 0) \<and>
       lsts s 0 = LLoop 2 0 \<and> 2 \<in> cancelled s \<and>
       lsts s 1 = LWait 3 2 \<and> 3 \<notin> cancelled s \<and> 2 \<notin> closedGates s \<and>
       step s (FirstData 1) = None \<and> step s (CtxDone 1) = None \<and>
       step s (ClientGone 1) = Some (setLis 1 (LDone None) s)"
  by (simp add: sessionTrace_def eval_defs)

subsection \<open>Catch-up\<close>

lemma lastn_lastn_append: "lastn n (lastn n xs @ ys) = lastn n (xs @ ys)"
proof (cases "length ys \<le> n")
  case True
  then show ?thesis by (rule lastn_append_lastn)
next
  case False
  then show ?thesis by (simp add: lastn_def)
qed

lemma lastn_short: "length xs \<le> n \<Longrightarrow> lastn n xs = xs"
  by (simp add: lastn_def)

lemma sizeInv_Start: "sizeInv (Start cfg)"
  by (simp add: sizeInv_def Start_defs)

lemma ringWrite_length:
  "length d \<le> 1024 \<Longrightarrow> length (ringWrite d rb) \<le> maxRingBufferSize"
  by (simp add: ringWrite_eq lastn_length) (simp add: maxRingBufferSize_def)

lemma sliceBytes_length: "length (sliceBytes s (p, n)) \<le> n"
  by (simp add: sliceBytes_def)

lemma sizeInv_step:
  assumes "sizeInv s" and "step s e = Some s'"
  shows "sizeInv s'"
proof (cases e)
  case (Pub p)
  have n: "chunkLen (pubs s p) \<le> 1024"
    using assms(1) by (simp add: sizeInv_def)
  have w: "\<And>n. n \<le> 1024 \<Longrightarrow>
             length (ringWrite (sliceBytes s (p, n)) (rings s (ringBuffer s))) \<le> maxRingBufferSize"
    using sliceBytes_length [of s p] by (intro ringWrite_length) (meson le_trans)
  from Pub assms n show ?thesis
    by (cases "pubs s p")
       (auto simp: sizeInv_def setPub_def pubStep_def onceDo_def ringStep_def fanout_def
                   clearListeners_def newStreamCtx_def resetOnce_def resetGate_def resetRing_def
                   Let_def w
             split: if_splits sum.splits option.splits)
next
  case (Lis l)
  with assms show ?thesis
    by (cases "lsts s l") (auto simp: sizeInv_def step_defs split: if_splits)
next
  case (Recv l)
  with assms show ?thesis
    by (cases "lsts s l") (auto simp: sizeInv_def step_defs split: if_splits list.splits)
next
  case (Connect p)
  with assms show ?thesis
    by (cases "pubs s p") (auto simp: sizeInv_def step_defs split: if_splits)
next
  case (Auth p r en)
  with assms show ?thesis
    by (cases "pubs s p") (auto simp: sizeInv_def step_defs split: if_splits)
next
  case (Read p d er)
  with assms show ?thesis
    by (cases "pubs s p") (auto simp: sizeInv_def step_defs split: if_splits)
next
  case (FirstData l)
  with assms show ?thesis
    by (cases "lsts s l") (auto simp: sizeInv_def step_defs split: if_splits)
next
  case (ClientGone l)
  with assms show ?thesis
    by (cases "lsts s l") (auto simp: sizeInv_def step_defs split: if_splits)
next
  case (CtxDone l)
  with assms show ?thesis
    by (cases "lsts s l") (auto simp: sizeInv_def step_defs split: if_splits)
next
  case (Snapshot l ok)
  with assms show ?thesis
    by (cases "lsts s l") (auto simp: sizeInv_def step_defs split: if_splits)
next
  case (Send l ok)
  with assms show ?thesis
    by (cases "lsts s l") (auto simp: sizeInv_def step_defs split: if_splits)
qed

lemma sizeInv_run: "run (Start cfg) es = Some s \<Longrightarrow> sizeInv s"
  by (rule run_invariant [where P = sizeInv, OF sizeInv_Start sizeInv_step])

lemma outInv_Start: "outInv (Start cfg)"
  by (simp add: outInv_def Start_defs)

lemma step_other_louts:
  assumes "step s e = Some s'" and "listenerOf e \<noteq> Some l"
  shows "louts s' l = louts s l"
proof (cases e)
  case (Pub p)
  with assms show ?thesis
    by (cases "pubs s p")
       (auto simp: step_defs split: if_splits sum.splits option.splits)
next
  case (Lis l')
  with assms show ?thesis
    by (cases "lsts s l'") (auto simp: step_defs split: if_splits)
next
  case (Recv l')
  with assms show ?thesis
    by (cases "lsts s l'") (auto simp: step_defs split: if_splits list.splits)
next
  case (Connect p)
  with assms show ?thesis
    by (cases "pubs s p") (auto simp: step_defs split: if_splits)
next
  case (Auth p r en)
  with assms show ?thesis
    by (cases "pubs s p") (auto simp: step_defs split: if_splits)
next
  case (Read p d er)
  with assms show ?thesis
    by (cases "pubs s p") (auto simp: step_defs split: if_splits)
next
  case (FirstData l')
  with assms show ?thesis
    by (cases "lsts s l'") (auto simp: step_defs split: if_splits)
next
  case (ClientGone l')
  with assms show ?thesis
    by (cases "lsts s l'") (auto simp: step_defs split: if_splits)
next
  case (CtxDone l')
  with assms show ?thesis
    by (cases "lsts s l'") (auto simp: step_defs split: if_splits)
next
  case (Snapshot l' ok)
  with assms show ?thesis
    by (cases "lsts s l'") (auto simp: step_defs split: if_splits)
next
  case (Send l' ok)
  with assms show ?thesis
    by (cases "lsts s l'") (auto simp: step_defs split: if_splits)
qed

lemma step_own_listener:
  assumes st: "step s e = Some s'" and own: "listenerOf e = Some l"
  shows "(beforeCopy (lsts s' l) \<longrightarrow> beforeCopy (lsts s l) \<and> louts s' l = louts s l) \<and>
         (\<forall>ch. chanOf (lsts s' l) = Some ch \<longrightarrow>
            chanOf (lsts s l) = Some ch \<or> (ch = nextChan s \<and> nextChan s' = Suc (nextChan s)))"
proof -
  from own consider "e = Lis l" | "e = FirstData l" | "e = ClientGone l" | "e = CtxDone l"
    | ok where "e = Snapshot l ok" | "e = Recv l" | ok where "e = Send l ok"
    by (cases e) auto
  then show ?thesis
    using st
    by cases
       ((cases "lsts s l"),
        (auto simp: step_defs split: if_splits list.splits)[11])+
qed

lemma outInv_step:
  assumes inv: "outInv s" and st: "step s e = Some s'"
  shows "outInv s'"
  unfolding outInv_def
proof (intro allI impI)
  fix l assume b: "beforeCopy (lsts s' l)"
  show "louts s' l = []"
  proof (cases "listenerOf e = Some l")
    case True
    from step_own_listener [OF st True] b
    have "beforeCopy (lsts s l)" "louts s' l = louts s l" by blast+
    then show ?thesis using inv by (simp add: outInv_def)
  next
    case False
    then have "lsts s' l = lsts s l" "louts s' l = louts s l"
      using step_other_lsts [OF st] step_other_louts [OF st] by simp_all
    then show ?thesis using inv b by (simp add: outInv_def)
  qed
qed

lemma outInv_run: "run (Start cfg) es = Some s \<Longrightarrow> outInv s"
  by (rule run_invariant [where P = outInv, OF outInv_Start outInv_step])

lemma step_nextChan: "step s e = Some s' \<Longrightarrow> nextChan s \<le> nextChan s'"
proof (cases e)
  case (Pub p)
  assume "step s e = Some s'"
  with Pub show ?thesis
    by (cases "pubs s p")
       (auto simp: step_defs split: if_splits sum.splits option.splits)
next
  case (Lis l)
  assume "step s e = Some s'"
  with Lis show ?thesis
    by (cases "lsts s l") (auto simp: step_defs split: if_splits)
next
  case (Recv l)
  assume "step s e = Some s'"
  with Recv show ?thesis
    by (cases "lsts s l") (auto simp: step_defs split: if_splits list.splits)
qed (auto simp: step_defs split: if_splits publisher.splits listener.splits)

lemma chanInv_Start: "chanInv (Start cfg)"
  by (simp add: chanInv_def Start_defs)

lemma chanInv_step:
  assumes inv: "chanInv s" and st: "step s e = Some s'"
  shows "chanInv s'"
proof -
  have lt: "\<And>l ch. chanOf (lsts s l) = Some ch \<Longrightarrow> ch < nextChan s"
    and un: "\<And>l l' ch. chanOf (lsts s l) = Some ch \<Longrightarrow> chanOf (lsts s l') = Some ch \<Longrightarrow> l = l'"
    using inv by (auto simp: chanInv_def)
  have mono: "nextChan s \<le> nextChan s'" using st by (rule step_nextChan)
  have other: "\<And>l. listenerOf e \<noteq> Some l \<Longrightarrow> lsts s' l = lsts s l"
    using step_other_lsts [OF st] by simp
  have old: "\<And>l ch. chanOf (lsts s' l) = Some ch \<Longrightarrow>
               chanOf (lsts s l) = Some ch \<or>
               (listenerOf e = Some l \<and> ch = nextChan s \<and> nextChan s' = Suc (nextChan s))"
  proof -
    fix l ch assume h: "chanOf (lsts s' l) = Some ch"
    show "chanOf (lsts s l) = Some ch \<or>
          (listenerOf e = Some l \<and> ch = nextChan s \<and> nextChan s' = Suc (nextChan s))"
    proof (cases "listenerOf e = Some l")
      case True
      note o = step_own_listener [OF st True]
      then show ?thesis using h True by blast
    next
      case False
      then show ?thesis using other h by simp
    qed
  qed
  have lt': "\<And>l ch. chanOf (lsts s' l) = Some ch \<Longrightarrow> ch < nextChan s'"
    using old lt mono by (metis less_Suc_eq less_le_trans lessI)
  have un': "\<And>l l' ch. chanOf (lsts s' l) = Some ch \<Longrightarrow> chanOf (lsts s' l') = Some ch \<Longrightarrow> l = l'"
  proof -
    fix l l' ch
    assume a: "chanOf (lsts s' l) = Some ch" and b: "chanOf (lsts s' l') = Some ch"
    from old [OF a] old [OF b] show "l = l'"
      using un lt by (metis nat_neq_iff option.inject)
  qed
  show ?thesis unfolding chanInv_def using lt' un' by blast
qed

lemma chanInv_run: "run (Start cfg) es = Some s \<Longrightarrow> chanInv s"
  by (rule run_invariant [where P = chanInv, OF chanInv_Start chanInv_step])

lemma serving_cases:
  assumes "serving ch pc"
  obtains (snap) c where "pc = LSnapshot c ch" | (copy) c a n where "pc = LWrite c ch a n"
    | (loop) c where "pc = LLoop c ch" | (data) c d where "pc = LData c ch d"
  using assms by (cases pc) auto

lemma sliceBytes_fun: "sliceBytes s = (\<lambda>sl. take (snd sl) (bufs s (fst sl)))"
  by (rule ext) (simp add: sliceBytes_def)

lemma delivered_frame:
  assumes "lsts s' l = lsts s l" and "louts s' l = louts s l" and "rings s' = rings s"
      and "bufs s' = bufs s" and "chans s' ch = chans s ch"
  shows "delivered l ch s' = delivered l ch s"
  unfolding delivered_def pendingCopy_def held_def queued_def sliceBytes_fun assms by (rule refl)

lemma delivered_enqueue:
  assumes "lsts s' l = lsts s l" and "louts s' l = louts s l" and "rings s' = rings s"
      and "bufs s' = bufs s" and "queue (chans s' ch) = queue (chans s ch) @ [sl]"
  shows "delivered l ch s' = delivered l ch s @ sliceBytes s sl"
  unfolding delivered_def pendingCopy_def held_def queued_def sliceBytes_fun assms by simp

lemma inflight_frame:
  assumes "pubs s' p = pubs s p" and "bufs s' = bufs s"
  shows "inflight p s' = inflight p s"
  unfolding inflight_def sliceBytes_fun assms by (rule refl)

lemma inflight_none: "pubs s p = pc \<Longrightarrow> (\<And>n x. pc \<noteq> PFan n x) \<Longrightarrow> inflight p s = []"
  by (cases pc) (auto simp: inflight_def)

lemma held_none: "\<not> holding (lsts s l) \<Longrightarrow> held l s = []"
  unfolding held_def by (cases "lsts s l") (auto split: option.splits)

text \<open>What a step of a listener leaves alone.\<close>

lemma listener_step_frame:
  assumes st: "step s e = Some s'" and li: "listenerOf e = Some l'"
  shows "rings s' = rings s \<and> bufs s' = bufs s \<and> pubs s' = pubs s \<and> wrote s e = [] \<and>
         (\<forall>ch. chanOf (lsts s l') \<noteq> Some ch \<and> ch < nextChan s \<longrightarrow> chans s' ch = chans s ch) \<and>
         (\<forall>ch. chanOf (lsts s l') \<noteq> Some ch \<and> ch \<in> listeners s \<longrightarrow> ch \<in> listeners s')"
proof -
  from li consider "e = Lis l'" | "e = FirstData l'" | "e = ClientGone l'" | "e = CtxDone l'"
    | ok where "e = Snapshot l' ok" | "e = Recv l'" | ok where "e = Send l' ok"
    by (cases e) auto
  then show ?thesis
    using st
    by cases
       ((cases "lsts s l'"),
        (auto simp: step_defs wrote_def split: if_splits list.splits)[11])+
qed

text \<open>What a step of a publisher leaves alone.\<close>

lemma publisher_step_frame:
  assumes st: "step s e = Some s'" and pu: "publisherOf e = Some q"
  shows "lsts s' = lsts s \<and> louts s' = louts s"
proof -
  from pu consider "e = Connect q" | r en where "e = Auth q r en"
    | d x where "e = Read q d x" | "e = Pub q"
    by (cases e) auto
  then show ?thesis
    using st
    by cases
       ((cases "pubs s q"),
        (auto simp: step_defs split: if_splits sum.splits option.splits)[17])+
qed

lemma event_actor: "(\<exists>q. publisherOf e = Some q) \<or> (\<exists>l. listenerOf e = Some l)"
  by (cases e) auto

text \<open>A listener never goes back in the order of its handler's statements.\<close>

lemma step_stage:
  assumes st: "step s e = Some s'"
  shows "stage (lsts s l) \<le> stage (lsts s' l)"
proof (cases "listenerOf e = Some l")
  case False
  then show ?thesis using step_other_lsts [OF st] by simp
next
  case True
  then consider "e = Lis l" | "e = FirstData l" | "e = ClientGone l" | "e = CtxDone l"
    | ok where "e = Snapshot l ok" | "e = Recv l" | ok where "e = Send l ok"
    by (cases e) auto
  then show ?thesis
    using st
    by cases
       ((cases "lsts s l"),
        (auto simp: step_defs split: if_splits list.splits)[11])+
qed

lemma run_stage: "run s es = Some s' \<Longrightarrow> stage (lsts s l) \<le> stage (lsts s' l)"
proof (induction es arbitrary: s)
  case Nil
  then show ?case by simp
next
  case (Cons e es)
  from Cons.prems obtain t where t: "step s e = Some t" and r: "run t es = Some s'"
    by (auto split: option.splits)
  show ?case
    using step_stage [OF t, of l] Cons.IH [OF r] by simp
qed

lemma step_snapshot_own:
  assumes st: "step s e = Some s'" and li: "listenerOf e = Some l" and sn: "stage (lsts s l) = 5"
  shows "5 < stage (lsts s' l)"
proof -
  from sn obtain c ch where lp: "lsts s l = LSnapshot c ch"
    by (cases "lsts s l") auto
  from li lp st have "e = Lis l"
    by (cases e) auto
  then show ?thesis
    using st lp by (auto simp: step_defs split: if_splits)
qed

text \<open>
  A listener that stands before taking its slice of the history at both ends of a run
  has not moved during the run.
\<close>

lemma snapshot_waits:
  assumes "run s es = Some s'" and "stage (lsts s l) = 5" and "stage (lsts s' l) \<le> 5"
  shows "lsts s' l = lsts s l"
  using assms
proof (induction es arbitrary: s)
  case Nil
  then show ?case by simp
next
  case (Cons e es)
  from Cons.prems(1) obtain t where t: "step s e = Some t" and r: "run t es = Some s'"
    by (auto split: option.splits)
  have up: "stage (lsts t l) \<le> 5"
    using run_stage [OF r, of l] Cons.prems(3) by simp
  have other: "listenerOf e \<noteq> Some l"
    using step_snapshot_own [OF t _ Cons.prems(2)] up by fastforce
  have same: "lsts t l = lsts s l"
    using step_other_lsts [OF t other] .
  show ?case
    using Cons.IH [OF r] same Cons.prems(2,3) by simp
qed

text \<open>
  The chunk in flight is the last thing that was written to the history: after a step,
  it is what the step wrote, or it is as before and the step wrote nothing, or there is
  none.
\<close>

lemma inflight_step:
  assumes fl: "flagInv s" and st: "step s e = Some s'"
  shows "inflight p s' = [] \<or> (inflight p s' = inflight p s \<and> wrote s e = []) \<or>
         wrote s e = inflight p s'"
proof -
  from event_actor [of e] show ?thesis
  proof (elim disjE exE)
    fix l assume li: "listenerOf e = Some l"
    have "pubs s' = pubs s" "bufs s' = bufs s" "wrote s e = []"
      using listener_step_frame [OF st li] by blast+
    then show ?thesis
      using inflight_frame [of s' p s] by simp
  next
    fix q assume pu: "publisherOf e = Some q"
    from pu consider "e = Connect q" | r en where "e = Auth q r en"
      | d x where "e = Read q d x" | "e = Pub q"
      by (cases e) auto
    note ev = this
    show ?thesis
    proof (cases "q = p")
      case True
      from ev show ?thesis
        using st unfolding True
        by cases
           ((cases "pubs s p"),
            (auto simp: step_defs wrote_def inflight_def
                  split: if_splits sum.splits option.splits)[17])+
    next
      case False
      have pp: "pubs s' p = pubs s p"
        using step_other_pubs [OF st] pu False by simp
      from ev have bp: "bufs s' p = bufs s p"
        using st False
        by cases
           ((cases "pubs s q"),
            (auto simp: step_defs split: if_splits sum.splits option.splits)[17])+
      have same: "inflight p s' = inflight p s"
        using pp bp by (cases "pubs s p") (simp_all add: inflight_def sliceBytes_def)
      show ?thesis
      proof (cases "wrote s e = []")
        case True
        then show ?thesis using same by simp
      next
        case wr: False
        from ev wr obtain n x where ring: "pubs s q = PRing n x"
          by cases (auto simp: wrote_def split: publisher.splits)
        have "\<And>m y. pubs s p \<noteq> PFan m y"
          using fl ring False by (auto simp: flagInv_def)
        then have "inflight p s = []"
          by (intro inflight_none [of s p "pubs s p"]) simp_all
        then show ?thesis using same by simp
      qed
    qed
  qed
qed

lemma inflight_run:
  assumes "flagInv s" and "run s es = Some s'"
  shows "\<exists>pre. inflight p s @ written s es = pre @ inflight p s'"
  using assms
proof (induction es arbitrary: s)
  case Nil
  then show ?case by simp
next
  case (Cons e es)
  from Cons.prems(2) obtain t where t: "step s e = Some t" and r: "run t es = Some s'"
    by (auto split: option.splits)
  obtain pre where pre: "inflight p t @ written t es = pre @ inflight p s'"
    using Cons.IH [OF flagInv_step [OF Cons.prems(1) t] r] by blast
  have w: "written s (e # es) = wrote s e @ written t es"
    using t by simp
  from inflight_step [OF Cons.prems(1) t, of p]
  consider "inflight p t = []" | "inflight p t = inflight p s" "wrote s e = []"
    | "wrote s e = inflight p t"
    by blast
  then show ?case
  proof cases
    case 1
    then have "inflight p s @ written s (e # es) = (inflight p s @ wrote s e @ pre) @ inflight p s'"
      using pre w by simp
    then show ?thesis by blast
  next
    case 2
    then have "inflight p s @ written s (e # es) = pre @ inflight p s'"
      using pre w by simp
    then show ?thesis by blast
  next
    case 3
    then have "inflight p s @ written s (e # es) = (inflight p s @ pre) @ inflight p s'"
      using pre w by simp
    then show ?thesis by blast
  qed
qed

text \<open>
  One step of a run in which listener \<open>l\<close> is served: what it has been sent and is about
  to be sent, followed by the chunk in flight, grows by what the step writes to the
  history. The step in which the listener takes its slice of the history is set apart.
\<close>

lemma stream_step:
  assumes fl: "flagInv s" and ro: "registryOpen s" and ci: "chanInv s"
      and l: "serving ch (lsts s l)" and reg: "ch \<in> listeners s" and p: "streaming (pubs s p)"
      and ss: "sessionStep s e" and sv: "servedStep l ch s e" and st: "step s e = Some s'"
      and quiet: "listenerOf e = Some l \<Longrightarrow> stage (lsts s l) \<noteq> 5"
  shows "serving ch (lsts s' l) \<and> ch \<in> listeners s' \<and> streaming (pubs s' p) \<and>
         delivered l ch s' @ inflight p s' = delivered l ch s @ inflight p s @ wrote s e"
proof -
  have hp: "holdsFlag (pubs s p)" using p by (cases "pubs s p") auto
  have only: "\<And>q. holdsFlag (pubs s q) \<Longrightarrow> q = p"
    using fl hp by (auto simp: flagInv_def)
  have open_ch: "ch < nextChan s" "\<not> closed (chans s ch)"
    using ro reg by (auto simp: registryOpen_def)
  have cl: "chanOf (lsts s l) = Some ch"
    using l by (cases rule: serving_cases) auto
  have mine: "\<And>l'. l' \<noteq> l \<Longrightarrow> chanOf (lsts s l') \<noteq> Some ch"
    using ci cl by (auto simp: chanInv_def)
  from event_actor [of e] show ?thesis
  proof (elim disjE exE)
    fix l' assume li: "listenerOf e = Some l'"
    note fr = listener_step_frame [OF st li]
    have pb: "pubs s' = pubs s" and rg: "rings s' = rings s" and bf: "bufs s' = bufs s"
      and w: "wrote s e = []"
      using fr by blast+
    have infl: "inflight p s' = inflight p s"
      using pb bf by (intro inflight_frame) simp_all
    show ?thesis
    proof (cases "l' = l")
      case False
      have "lsts s' l = lsts s l" "louts s' l = louts s l"
        using step_other_lsts [OF st] step_other_louts [OF st] li False by simp_all
      moreover have "chans s' ch = chans s ch" "ch \<in> listeners s'"
        using fr mine [OF False] open_ch(1) reg by blast+
      ultimately show ?thesis
        using delivered_frame [of s' l s ch] rg bf infl w l p pb by simp
    next
      case True
      from l show ?thesis
      proof (cases rule: serving_cases)
        case (snap c)
        then show ?thesis using quiet li True by simp
      next
        case (copy c a n)
        have e: "e = Snapshot l True"
          using li True st sv copy by (cases e) (auto simp: lisStep_def servedStep_def)
        have s': "s' = setLis l (LLoop c ch) (writeOut l (take n (rings s a)) s)"
          using e st copy by simp
        have "delivered l ch s' = delivered l ch s"
          using copy by (simp add: s' delivered_def pendingCopy_def held_def queued_def
                                   setLis_def writeOut_def sliceBytes_fun)
        moreover have "serving ch (lsts s' l)" "ch \<in> listeners s'"
          using reg by (simp_all add: s' setLis_def writeOut_def)
        ultimately show ?thesis using infl w p pb by simp
      next
        case (loop c)
        have e: "e = Recv l"
          using li True st sv loop by (cases e) (auto simp: lisStep_def servedStep_def)
        obtain d ds where q: "queue (chans s ch) = d # ds"
          using e st loop open_ch(2) by (cases "queue (chans s ch)") auto
        have s': "s' = setLis l (LData c ch (Some d))
                         (s\<lparr>chans := (chans s)(ch := (chans s ch)\<lparr>queue := ds\<rparr>)\<rparr>)"
          using e st loop q by simp
        have "delivered l ch s' = delivered l ch s"
          using loop q by (simp add: s' delivered_def pendingCopy_def held_def queued_def
                                     setLis_def sliceBytes_fun)
        moreover have "serving ch (lsts s' l)" "ch \<in> listeners s'"
          using reg by (simp_all add: s' setLis_def)
        ultimately show ?thesis using infl w p pb by simp
      next
        case (data c d)
        have e: "e = Send l True"
          using li True st sv data by (cases e) (auto simp: lisStep_def servedStep_def)
        have s': "s' = setLis l (LLoop c ch)
                         (writeOut l (case d of None \<Rightarrow> [] | Some sl \<Rightarrow> sliceBytes s sl) s)"
          using e st data by simp
        have "delivered l ch s' = delivered l ch s"
          using data by (cases d)
                         (simp_all add: s' delivered_def pendingCopy_def held_def queued_def
                                        setLis_def writeOut_def sliceBytes_fun)
        moreover have "serving ch (lsts s' l)" "ch \<in> listeners s'"
          using reg by (simp_all add: s' setLis_def writeOut_def)
        ultimately show ?thesis using infl w p pb by simp
      qed
    qed
  next
    fix q assume pu: "publisherOf e = Some q"
    have ls: "lsts s' = lsts s" and lo: "louts s' = louts s"
      using publisher_step_frame [OF st pu] by blast+
    have serv: "serving ch (lsts s' l)" using l ls by simp
    show ?thesis
    proof (cases "holdsFlag (pubs s q)")
      case False
      then have "q \<noteq> p" using hp by auto
      then have pp: "pubs s' p = pubs s p"
        using step_other_pubs [OF st] pu by simp
      from pu consider "e = Connect q" | r en where "e = Auth q r en"
        | d x where "e = Read q d x" | "e = Pub q"
        by (cases e) auto
      then have "rings s' = rings s \<and> bufs s' = bufs s \<and> chans s' = chans s \<and>
                 listeners s' = listeners s \<and> wrote s e = []"
        using st False ss
        by cases
           ((cases "pubs s q"),
            (auto simp: step_defs wrote_def sessionStep_def split: if_splits)[17])+
      then show ?thesis
        using delivered_frame [of s' l s ch] inflight_frame [of s' p s] ls lo pp serv reg p
        by simp
    next
      case True
      then have qp: "q = p" by (rule only)
      from pu consider "e = Connect p" | r en where "e = Auth p r en"
        | d x where "e = Read p d x" | "e = Pub p"
        unfolding qp by (cases e) auto
      then show ?thesis
      proof cases
        case 1
        then show ?thesis using st p by (cases "pubs s p") auto
      next
        case 2
        then show ?thesis using st p by (cases "pubs s p") auto
      next
        case (3 d x)
        have pl: "pubs s p = PLoop" using 3 st by (cases "pubs s p") auto
        have empty: "queue (chans s ch) = []" and nh: "\<not> holding (lsts s l)"
          using 3 sv by (simp_all add: servedStep_def)
        have hd: "held l s' = []" "held l s = []"
          using nh ls held_none [of s l] held_none [of s' l] by simp_all
        have f: "rings s' = rings s" "chans s' = chans s" "listeners s' = listeners s"
                "\<And>n y. pubs s' p \<noteq> PFan n y" "streaming (pubs s' p)"
          using 3 st pl by (auto simp: step_defs split: if_splits)
        have "delivered l ch s' = delivered l ch s"
          unfolding delivered_def pendingCopy_def queued_def hd ls lo f(1,2) empty by simp
        moreover have "inflight p s' = []" "inflight p s = []"
          using f(4) pl by (auto intro: inflight_none)
        moreover have "wrote s e = []" using 3 by (simp add: wrote_def)
        ultimately show ?thesis using serv reg f by simp
      next
        case 4
        from p ss 4 consider "pubs s p = PBegin" | "pubs s p = PLoop"
          | n x where "pubs s p = POnce n x" | n x where "pubs s p = PRing n x"
          | n x where "pubs s p = PFan n x"
          by (cases "pubs s p") (auto simp: sessionStep_def)
        then show ?thesis
        proof cases
          case 1
          have f: "rings s' = rings s" "bufs s' = bufs s" "chans s' = chans s"
                  "listeners s' = listeners s" "pubs s' p = PLoop"
            using 4 st 1 by (auto simp: step_defs split: option.splits)
          have "inflight p s' = []" "inflight p s = []"
            using f(5) 1 by (auto intro: inflight_none)
          moreover have "wrote s e = []" using 4 1 by (simp add: wrote_def)
          ultimately show ?thesis
            using delivered_frame [of s' l s ch] ls lo f serv reg by simp
        next
          case 2
          then show ?thesis using 4 st by (simp add: pubStep_def)
        next
          case (3 n x)
          have f: "rings s' = rings s" "bufs s' = bufs s" "chans s' = chans s"
                  "listeners s' = listeners s" "pubs s' p = PRing n x \<or> pubs s' p = PDefer1"
            using 4 st 3 by (auto simp: step_defs split: if_splits)
          have "inflight p s' = []" "inflight p s = []"
            using f(5) 3 by (auto intro: inflight_none)
          moreover have "wrote s e = []" using 4 3 by (simp add: wrote_def)
          moreover have "streaming (pubs s' p)" using f(5) by auto
          ultimately show ?thesis
            using delivered_frame [of s' l s ch] ls lo f(1-4) serv reg by simp
        next
          case (4 n x)
          note ring = 4
          have nc: "\<not> copying (lsts s l)"
            using \<open>e = Pub p\<close> sv ring by (simp add: servedStep_def)
          have s': "s' = setPub p (PFan n x) (ringStep (p, n) s)"
            using \<open>e = Pub p\<close> st ring by (simp add: pubStep_def)
          have "delivered l ch s' = delivered l ch s"
            using nc
            by (cases "lsts s l")
               (simp_all add: s' delivered_def pendingCopy_def held_def queued_def setPub_def
                              ringStep_def sliceBytes_fun)
          moreover have "inflight p s' = sliceBytes s (p, n)" "inflight p s = []"
            using ring by (simp_all add: s' inflight_def setPub_def ringStep_def sliceBytes_def)
          moreover have "wrote s e = sliceBytes s (p, n)"
            using \<open>e = Pub p\<close> ring by (simp add: wrote_def)
          moreover have "ch \<in> listeners s'" "streaming (pubs s' p)"
            using reg by (simp_all add: s' setPub_def ringStep_def)
          ultimately show ?thesis using serv by simp
        next
          case (5 n x)
          note fan = 5
          have room: "length (queue (chans s ch)) < listenerChanCap"
            using \<open>e = Pub p\<close> sv fan by (simp add: servedStep_def)
          obtain t where t: "fanout (p, n) s = Some t"
            using fanout_total [OF ro, of "(p, n)"] by auto
          have s': "s' = setPub p (if x then PDefer1 else PLoop) t"
            using \<open>e = Pub p\<close> st fan t by (simp add: pubStep_def)
          have tc: "chans t ch = (chans s ch)\<lparr>queue := queue (chans s ch) @ [(p, n)]\<rparr>"
            using fanout_chans [OF t, of ch] reg room by (simp add: trySend_def)
          have tf: "listeners t = listeners s" "bufs t = bufs s" "rings t = rings s"
                   "lsts t = lsts s" "louts t = louts s"
            using t by (auto simp: fanout_def split: if_splits)
          have sf: "lsts s' l = lsts s l" "louts s' l = louts s l" "rings s' = rings s"
                   "bufs s' = bufs s" "queue (chans s' ch) = queue (chans s ch) @ [(p, n)]"
            using tc tf by (simp_all add: s' setPub_def)
          have "delivered l ch s' = delivered l ch s @ sliceBytes s (p, n)"
            using sf by (rule delivered_enqueue)
          moreover have "inflight p s' = []" "inflight p s = sliceBytes s (p, n)"
            using fan by (simp_all add: s' inflight_def setPub_def)
          moreover have "wrote s e = []"
            using \<open>e = Pub p\<close> fan by (simp add: wrote_def)
          moreover have "ch \<in> listeners s'" "streaming (pubs s' p)"
            using reg tf by (simp_all add: s' setPub_def)
          ultimately show ?thesis using serv by simp
        qed
      qed
    qed
  qed
qed

lemma stream_run:
  assumes "flagInv s" and "registryOpen s" and "chanInv s"
      and "serving ch (lsts s l)" and "ch \<in> listeners s" and "streaming (pubs s p)"
      and "sessionRun s es" and "served l ch s es" and "run s es = Some s'"
      and "stage (lsts s' l) \<le> 5 \<or> 5 < stage (lsts s l)"
  shows "serving ch (lsts s' l) \<and> ch \<in> listeners s' \<and> streaming (pubs s' p) \<and>
         delivered l ch s' @ inflight p s' = delivered l ch s @ inflight p s @ written s es"
  using assms
proof (induction es arbitrary: s)
  case Nil
  then show ?case by simp
next
  case (Cons e es)
  from Cons.prems(9) obtain t where t: "step s e = Some t" and r: "run t es = Some s'"
    by (auto split: option.splits)
  have ss: "sessionStep s e" and sr: "sessionRun t es"
    using Cons.prems(7) t by simp_all
  have sv: "servedStep l ch s e" and svr: "served l ch t es"
    using Cons.prems(8) t by simp_all
  have quiet: "stage (lsts s l) \<noteq> 5" if "listenerOf e = Some l"
  proof
    assume five: "stage (lsts s l) = 5"
    then have "stage (lsts s' l) \<le> 5" using Cons.prems(10) by simp
    then have "stage (lsts t l) \<le> 5" using run_stage [OF r, of l] by simp
    then show False using step_snapshot_own [OF t that five] by simp
  qed
  have next_stage: "stage (lsts s' l) \<le> 5 \<or> 5 < stage (lsts t l)"
    using Cons.prems(10) step_stage [OF t, of l] by auto
  note one = stream_step [OF Cons.prems(1-6) ss sv t quiet]
  have inv: "flagInv t" "registryOpen t" "chanInv t"
    using flagInv_step [OF Cons.prems(1) t] registryOpen_step [OF Cons.prems(2) t]
          chanInv_step [OF Cons.prems(3) t] by blast+
  have "serving ch (lsts s' l) \<and> ch \<in> listeners s' \<and> streaming (pubs s' p) \<and>
        delivered l ch s' @ inflight p s' = delivered l ch t @ inflight p t @ written t es"
    using Cons.IH [OF inv _ _ _ sr svr r next_stage] one by blast
  moreover have "written s (e # es) = wrote s e @ written t es"
    using t by simp
  ultimately show ?case using one by (simp del: written.simps)
qed

lemma written_append:
  "written s (es @ fs) =
     written s es @ (case run s es of None \<Rightarrow> [] | Some t \<Rightarrow> written t fs)"
  by (induction es arbitrary: s) (auto split: option.splits)

lemma sessionRun_append:
  "sessionRun s (es @ fs) \<longleftrightarrow>
     sessionRun s es \<and> (case run s es of None \<Rightarrow> False | Some t \<Rightarrow> sessionRun t fs)"
  by (induction es arbitrary: s) (auto split: option.splits)

text \<open>A step that is not part of a deferred function appends what it wrote to the history.\<close>

lemma ring_step:
  assumes sz: "sizeInv s" and ss: "sessionStep s e" and st: "step s e = Some s'"
  shows "rings s' (ringBuffer s') = lastn maxRingBufferSize (rings s (ringBuffer s) @ wrote s e)"
proof -
  have short: "lastn maxRingBufferSize (rings s (ringBuffer s)) = rings s (ringBuffer s)"
    using sz by (simp add: sizeInv_def lastn_short)
  from event_actor [of e] show ?thesis
  proof (elim disjE exE)
    fix l assume li: "listenerOf e = Some l"
    from li consider "e = Lis l" | "e = FirstData l" | "e = ClientGone l" | "e = CtxDone l"
      | ok where "e = Snapshot l ok" | "e = Recv l" | ok where "e = Send l ok"
      by (cases e) auto
    then have "ringBuffer s' = ringBuffer s"
      using st
      by cases
         ((cases "lsts s l"),
          (auto simp: step_defs split: if_splits list.splits)[11])+
    then show ?thesis
      using listener_step_frame [OF st li] short by simp
  next
    fix q assume pu: "publisherOf e = Some q"
    have n: "chunkLen (pubs s q) \<le> 1024" using sz by (simp add: sizeInv_def)
    from pu consider "e = Connect q" | r en where "e = Auth q r en"
      | d x where "e = Read q d x" | "e = Pub q"
      by (cases e) auto
    then show ?thesis
    proof cases
      case 4
      show ?thesis
      proof (cases "\<exists>n x. pubs s q = PRing n x")
        case True
        then obtain m x where ring: "pubs s q = PRing m x" by blast
        have "length (sliceBytes s (q, m)) \<le> maxRingBufferSize"
          using sliceBytes_length [of s q m] n ring by (simp add: maxRingBufferSize_def)
        moreover have "s' = setPub q (PFan m x) (ringStep (q, m) s)"
          using 4 st ring by (simp add: pubStep_def)
        ultimately show ?thesis
          using 4 ring by (simp add: setPub_def ringStep_def wrote_def ringWrite_eq)
      next
        case False
        with 4 st ss short show ?thesis
          by (cases "pubs s q")
             (auto simp: step_defs wrote_def sessionStep_def
                   split: if_splits sum.splits option.splits)
      qed
    qed (use st short in \<open>(cases "pubs s q",
           auto simp: step_defs wrote_def split: if_splits)+\<close>)
  qed
qed

lemma ring_run:
  assumes "sizeInv s" and "sessionRun s es" and "run s es = Some s'"
  shows "rings s' (ringBuffer s') = lastn maxRingBufferSize (rings s (ringBuffer s) @ written s es)"
  using assms
proof (induction es arbitrary: s)
  case Nil
  then show ?case by (simp add: sizeInv_def lastn_short)
next
  case (Cons e es)
  from Cons.prems(3) obtain t where t: "step s e = Some t" and r: "run t es = Some s'"
    by (auto split: option.splits)
  have ss: "sessionStep s e" and sr: "sessionRun t es"
    using Cons.prems(2) t by simp_all
  have rt: "rings t (ringBuffer t) = lastn maxRingBufferSize (rings s (ringBuffer s) @ wrote s e)"
    using Cons.prems(1) ss t by (rule ring_step)
  have "rings s' (ringBuffer s') = lastn maxRingBufferSize (rings t (ringBuffer t) @ written t es)"
    using Cons.IH [OF sizeInv_step [OF Cons.prems(1) t] sr r] .
  also have "\<dots> = lastn maxRingBufferSize ((rings s (ringBuffer s) @ wrote s e) @ written t es)"
    unfolding rt by (rule lastn_lastn_append)
  finally show ?case using t by simp
qed

text \<open>
  C3, as the code has it. Take a session whose history buffer is empty and in which no
  chunk is in flight, a listener that comes to register its channel, and any
  interleaving from there in which the session goes on, the listener stays, its channel
  has room at every fan-out, and no bytes it has yet to write out are overwritten:
  nothing is written to the history buffer between its taking its slice of that buffer
  and writing it out, and whenever the publisher reads into its read buffer the
  listener's channel is empty and the listener holds no slice it has received and not
  yet written out. What the listener has been sent, followed by what it is about to be
  sent and by the chunk in flight, is: the history as it was when the listener took its
  slice, that is the last \<open>min total maxRingBufferSize\<close> bytes the session had written by
  then; then, once more, the chunk that was in flight at its registration, which is the
  end of what had been written before, and the bytes written to the history between its
  registration and its taking the slice; then every byte written to the history
  afterwards, once and in order.
\<close>

theorem catch_up:
  assumes reach: "run (Start cfg) es0 = Some sb"
      and fresh: "rings sb (ringBuffer sb) = []" "inflight p sb = []"
      and before: "run sb es1 = Some sr" "sessionRun sb es1"
      and l: "lsts sr l = LRegister c" and p: "streaming (pubs sr p)"
      and boundary: "run sr (Lis l # es2) = Some s0"
                    "sessionRun sr (Lis l # es2)"
                    "served l ch sr (Lis l # es2)"
      and snap: "lsts s0 l = LSnapshot c ch"
      and after: "run s0 (Lis l # es3) = Some s'"
                 "sessionRun s0 (Lis l # es3)"
                 "served l ch s0 (Lis l # es3)"
  shows "(\<exists>pre. written sb es1 = pre @ inflight p sr) \<and>
         louts s' l @ pendingCopy l s' @ held l s' @ queued ch s' @ inflight p s' =
           lastn maxRingBufferSize (written sb es1 @ written sr (Lis l # es2)) @
           (inflight p sr @ written sr (Lis l # es2)) @
           written s0 (Lis l # es3)"
proof -
  have rr: "run (Start cfg) (es0 @ es1) = Some sr"
    using reach before(1) by (simp add: run_append)
  have r0: "run (Start cfg) ((es0 @ es1) @ Lis l # es2) = Some s0"
    using rr boundary(1) by (simp only: run_append option.case)
  have invb: "flagInv sb"
    using reach by (rule flagInv_run)
  have invr: "flagInv sr" "registryOpen sr" "chanInv sr" "outInv sr"
    using rr by (auto intro: flagInv_run registryOpen_run chanInv_run outInv_run)
  have inv0: "flagInv s0" "registryOpen s0" "chanInv s0" "outInv s0"
    using r0 by (auto intro: flagInv_run registryOpen_run chanInv_run outInv_run)

  have suffix: "\<exists>pre. written sb es1 = pre @ inflight p sr"
    using inflight_run [OF invb before(1), of p] fresh(2) by simp

  obtain sr1 where reg: "step sr (Lis l) = Some sr1" and rb: "run sr1 es2 = Some s0"
    using boundary(1) by (auto split: option.splits)
  have sr1: "lsts sr1 l = LSnapshot c (nextChan sr)" "nextChan sr \<in> listeners sr1"
            "queue (chans sr1 (nextChan sr)) = []" "louts sr1 = louts sr"
            "bufs sr1 = bufs sr" "pubs sr1 = pubs sr"
    using reg l by (auto simp: step_defs)
  have "lsts s0 l = lsts sr1 l"
    using rb by (rule snapshot_waits) (simp_all add: sr1(1) snap)
  then have ch: "ch = nextChan sr"
    using snap sr1(1) by simp
  have inv1: "flagInv sr1" "registryOpen sr1" "chanInv sr1"
    using flagInv_step [OF invr(1) reg] registryOpen_step [OF invr(2) reg]
          chanInv_step [OF invr(3) reg] by blast+
  have srb: "sessionRun sr1 es2" and svb: "served l ch sr1 es2"
    using boundary(2,3) reg by simp_all
  have outr: "louts sr l = []"
    using invr(4) l by (simp add: outInv_def)
  have d1: "delivered l ch sr1 = []"
    using sr1 outr by (simp add: ch delivered_def pendingCopy_def held_def queued_def)
  have i1: "inflight p sr1 = inflight p sr"
    using sr1 by (intro inflight_frame) simp_all
  have w1: "written sr (Lis l # es2) = written sr1 es2"
    using reg by (simp add: wrote_def)
  have ph1: "ch \<in> listeners s0 \<and> streaming (pubs s0 p) \<and>
             delivered l ch s0 @ inflight p s0 =
               delivered l ch sr1 @ inflight p sr1 @ written sr1 es2"
    using stream_run [OF inv1 _ _ _ srb svb rb, of p] sr1 p snap by (simp add: ch)
  have out0: "louts s0 l = []"
    using inv0(4) snap by (simp add: outInv_def)
  have d0: "delivered l ch s0 = queued ch s0"
    using out0 snap by (simp add: delivered_def pendingCopy_def held_def)
  have bnd: "queued ch s0 @ inflight p s0 = inflight p sr @ written sr (Lis l # es2)"
    using ph1 d0 d1 i1 w1 by simp
  have reg0: "ch \<in> listeners s0" and p0: "streaming (pubs s0 p)"
    using ph1 by blast+

  have rw: "run sb (es1 @ Lis l # es2) = Some s0"
    using before(1) boundary(1) by (simp only: run_append option.case)
  have sw: "sessionRun sb (es1 @ Lis l # es2)"
    using before boundary(2) by (simp only: sessionRun_append option.case simp_thms)
  have ww: "written sb (es1 @ Lis l # es2) = written sb es1 @ written sr (Lis l # es2)"
    using before(1) by (simp only: written_append option.case)
  have "rings s0 (ringBuffer s0) =
          lastn maxRingBufferSize (rings sb (ringBuffer sb) @ written sb (es1 @ Lis l # es2))"
    using sizeInv_run [OF reach] sw rw by (rule ring_run)
  then have ring0: "rings s0 (ringBuffer s0) =
          lastn maxRingBufferSize (written sb es1 @ written sr (Lis l # es2))"
    using fresh(1) ww by simp

  obtain s1 where s1: "step s0 (Lis l) = Some s1" and r1: "run s1 es3 = Some s'"
    using after(1) by (auto split: option.splits)
  have sr1': "sessionRun s1 es3" and sv1: "served l ch s1 es3"
    using after(2,3) s1 by simp_all
  have took: "serving ch (lsts s1 l)" "5 < stage (lsts s1 l)"
             "pendingCopy l s1 = rings s0 (ringBuffer s0)" "held l s1 = []"
             "louts s1 = louts s0" "chans s1 = chans s0" "bufs s1 = bufs s0"
             "listeners s1 = listeners s0" "pubs s1 = pubs s0"
    using s1 snap by (auto simp: step_defs pendingCopy_def held_def split: if_splits)
  have inv1': "flagInv s1" "registryOpen s1" "chanInv s1"
    using flagInv_step [OF inv0(1) s1] registryOpen_step [OF inv0(2) s1]
          chanInv_step [OF inv0(3) s1] by blast+
  have reg1: "ch \<in> listeners s1" and p1: "streaming (pubs s1 p)"
    using reg0 p0 took by simp_all
  have "delivered l ch s' @ inflight p s' = delivered l ch s1 @ inflight p s1 @ written s1 es3"
    using stream_run [OF inv1' took(1) reg1 p1 sr1' sv1 r1] took(2) by blast
  moreover have "delivered l ch s1 =
      lastn maxRingBufferSize (written sb es1 @ written sr (Lis l # es2)) @ queued ch s0"
    using took ring0 out0 by (simp add: delivered_def queued_def sliceBytes_fun)
  moreover have "inflight p s1 = inflight p s0"
    using took by (intro inflight_frame) simp_all
  moreover have "written s0 (Lis l # es3) = written s1 es3"
    using s1 by (simp add: wrote_def)
  ultimately have "delivered l ch s' @ inflight p s' =
      lastn maxRingBufferSize (written sb es1 @ written sr (Lis l # es2)) @
      (queued ch s0 @ inflight p s0) @ written s0 (Lis l # es3)"
    by (simp del: written.simps)
  then have "louts s' l @ pendingCopy l s' @ held l s' @ queued ch s' @ inflight p s' =
      lastn maxRingBufferSize (written sb es1 @ written sr (Lis l # es2)) @
      (inflight p sr @ written sr (Lis l # es2)) @ written s0 (Lis l # es3)"
    unfolding bnd by (simp add: delivered_def del: written.simps)
  then show ?thesis
    using suffix by blast
qed

lemma joinTrace_eval:
  "rings (Start demoConfig) (ringBuffer (Start demoConfig)) = [] \<and>
   inflight 0 (Start demoConfig) = [] \<and>
   sessionRun (Start demoConfig) joinTrace \<and>
   written (Start demoConfig) joinTrace = [9] \<and>
   (case run (Start demoConfig) joinTrace of
      None \<Rightarrow> False
    | Some sr \<Rightarrow>
        lsts sr 0 = LRegister 2 \<and> streaming (pubs sr 0) \<and> inflight 0 sr = [] \<and>
        sessionRun sr (Lis 0 # boundaryTrace) \<and>
        served 0 0 sr (Lis 0 # boundaryTrace) \<and>
        written sr (Lis 0 # boundaryTrace) = [1, 2] \<and>
        (case run sr (Lis 0 # boundaryTrace) of
           None \<Rightarrow> False
         | Some s0 \<Rightarrow>
             lsts s0 0 = LSnapshot 2 0 \<and>
             sessionRun s0 (Lis 0 # liveTrace) \<and>
             served 0 0 s0 (Lis 0 # liveTrace) \<and>
             written s0 (Lis 0 # liveTrace) = [3] \<and>
             (case run s0 (Lis 0 # liveTrace) of
                None \<Rightarrow> False
              | Some s' \<Rightarrow> louts s' 0 = [9, 1, 2, 1, 2, 3])))"
  by (simp add: joinTrace_def boundaryTrace_def liveTrace_def eval_defs obs_defs)

theorem catch_up_witness:
  "case run (Start demoConfig) joinTrace of
     None \<Rightarrow> False
   | Some sr \<Rightarrow>
       (case run sr (Lis 0 # boundaryTrace) of
          None \<Rightarrow> False
        | Some s0 \<Rightarrow>
            (case run s0 (Lis 0 # liveTrace) of
               None \<Rightarrow> False
             | Some s' \<Rightarrow>
                 louts s' 0 @ pendingCopy 0 s' @ held 0 s' @ queued 0 s' @ inflight 0 s' =
                   [9, 1, 2] @ [1, 2] @ [3] \<and>
                 louts s' 0 = [9, 1, 2, 1, 2, 3] \<and>
                 written (Start demoConfig) joinTrace = [9] \<and> inflight 0 sr = [] \<and>
                 written sr (Lis 0 # boundaryTrace) = [1, 2] \<and>
                 written s0 (Lis 0 # liveTrace) = [3]))"
proof -
  note ev = joinTrace_eval
  have fresh: "rings (Start demoConfig) (ringBuffer (Start demoConfig)) = []"
              "inflight 0 (Start demoConfig) = []"
    and sa: "sessionRun (Start demoConfig) joinTrace"
    and wa: "written (Start demoConfig) joinTrace = [9]"
    using ev by blast+
  from ev [THEN conjunct2, THEN conjunct2, THEN conjunct2, THEN conjunct2]
  obtain sr where ra: "run (Start demoConfig) joinTrace = Some sr"
    and fr: "lsts sr 0 = LRegister 2 \<and> streaming (pubs sr 0) \<and> inflight 0 sr = [] \<and>
        sessionRun sr (Lis 0 # boundaryTrace) \<and>
        served 0 0 sr (Lis 0 # boundaryTrace) \<and>
        written sr (Lis 0 # boundaryTrace) = [1, 2] \<and>
        (case run sr (Lis 0 # boundaryTrace) of
           None \<Rightarrow> False
         | Some s0 \<Rightarrow>
             lsts s0 0 = LSnapshot 2 0 \<and>
             sessionRun s0 (Lis 0 # liveTrace) \<and>
             served 0 0 s0 (Lis 0 # liveTrace) \<and>
             written s0 (Lis 0 # liveTrace) = [3] \<and>
             (case run s0 (Lis 0 # liveTrace) of
                None \<Rightarrow> False
              | Some s' \<Rightarrow> louts s' 0 = [9, 1, 2, 1, 2, 3]))"
    by (rule case_SomeE)
  from fr have l: "lsts sr 0 = LRegister 2" and p: "streaming (pubs sr 0)"
    and ir: "inflight 0 sr = []"
    and sb: "sessionRun sr (Lis 0 # boundaryTrace)"
    and vb: "served 0 0 sr (Lis 0 # boundaryTrace)"
    and wb: "written sr (Lis 0 # boundaryTrace) = [1, 2]"
    and cb: "case run sr (Lis 0 # boundaryTrace) of
           None \<Rightarrow> False
         | Some s0 \<Rightarrow>
             lsts s0 0 = LSnapshot 2 0 \<and>
             sessionRun s0 (Lis 0 # liveTrace) \<and>
             served 0 0 s0 (Lis 0 # liveTrace) \<and>
             written s0 (Lis 0 # liveTrace) = [3] \<and>
             (case run s0 (Lis 0 # liveTrace) of
                None \<Rightarrow> False
              | Some s' \<Rightarrow> louts s' 0 = [9, 1, 2, 1, 2, 3])"
    by blast+
  from cb obtain s0 where rb: "run sr (Lis 0 # boundaryTrace) = Some s0"
    and f0: "lsts s0 0 = LSnapshot 2 0 \<and>
             sessionRun s0 (Lis 0 # liveTrace) \<and>
             served 0 0 s0 (Lis 0 # liveTrace) \<and>
             written s0 (Lis 0 # liveTrace) = [3] \<and>
             (case run s0 (Lis 0 # liveTrace) of
                None \<Rightarrow> False
              | Some s' \<Rightarrow> louts s' 0 = [9, 1, 2, 1, 2, 3])"
    by (rule case_SomeE)
  from f0 have snap: "lsts s0 0 = LSnapshot 2 0"
    and sl: "sessionRun s0 (Lis 0 # liveTrace)"
    and vl: "served 0 0 s0 (Lis 0 # liveTrace)"
    and wl: "written s0 (Lis 0 # liveTrace) = [3]"
    and cl: "case run s0 (Lis 0 # liveTrace) of
                None \<Rightarrow> False
              | Some s' \<Rightarrow> louts s' 0 = [9, 1, 2, 1, 2, 3]"
    by blast+
  from cl obtain s' where rl: "run s0 (Lis 0 # liveTrace) = Some s'"
    and out: "louts s' 0 = [9, 1, 2, 1, 2, 3]"
    by (rule case_SomeE)
  have start: "run (Start demoConfig) [] = Some (Start demoConfig)" by simp
  have "(\<exists>pre. written (Start demoConfig) joinTrace = pre @ inflight 0 sr) \<and>
        louts s' 0 @ pendingCopy 0 s' @ held 0 s' @ queued 0 s' @ inflight 0 s' =
          lastn maxRingBufferSize
            (written (Start demoConfig) joinTrace @ written sr (Lis 0 # boundaryTrace)) @
          (inflight 0 sr @ written sr (Lis 0 # boundaryTrace)) @
          written s0 (Lis 0 # liveTrace)"
    using start fresh ra sa l p rb sb vb snap rl sl vl by (rule catch_up)
  then have "louts s' 0 @ pendingCopy 0 s' @ held 0 s' @ queued 0 s' @ inflight 0 s' =
          [9, 1, 2] @ [1, 2] @ [3]"
    unfolding wa wb wl ir by (simp add: lastn_def maxRingBufferSize_def)
  then show ?thesis
    unfolding ra rb rl option.case using out wa ir wb wl by blast
qed

subsection \<open>A listener that joins a full history buffer\<close>

lemma concat_replicate_replicate: "concat (replicate n (replicate m x)) = replicate (n * m) x"
  by (induction n) (simp_all add: replicate_add)

lemma readCycle_run:
  assumes "pubs s 0 = PLoop" and "listeners s = {}" and "firstDataOnce s"
      and "bufs s 0 = d" and "d \<noteq> []" and "length d \<le> 1024"
  shows "run s (readCycle d)
           = Some (s\<lparr>rings := (rings s)(ringBuffer s := ringWrite d (rings s (ringBuffer s)))\<rparr>) \<and>
         written s (readCycle d) = d"
proof -
  have "(pubs s)(0 := PLoop) = pubs s"
    using assms(1) by (metis fun_upd_triv)
  moreover have "(bufs s)(0 := d) = bufs s"
    using assms(4) by (metis fun_upd_triv)
  ultimately show ?thesis
    using assms by (simp add: readCycle_def step_defs wrote_def)
qed

lemma readCycles_run:
  assumes "pubs s 0 = PLoop" and "listeners s = {}" and "firstDataOnce s"
      and "bufs s 0 = d" and "d \<noteq> []" and "length d \<le> 1024"
  shows "run s (concat (replicate n (readCycle d)))
           = Some (s\<lparr>rings := (rings s)(ringBuffer s :=
                      ringWrites (replicate n d) (rings s (ringBuffer s)))\<rparr>) \<and>
         written s (concat (replicate n (readCycle d))) = concat (replicate n d)"
  using assms(1-4)
proof (induction n arbitrary: s)
  case 0
  have "(rings s)(ringBuffer s := rings s (ringBuffer s)) = rings s"
    by (rule fun_upd_triv)
  then show ?case by simp
next
  case (Suc n)
  let ?t = "s\<lparr>rings := (rings s)(ringBuffer s := ringWrite d (rings s (ringBuffer s)))\<rparr>"
  have one: "run s (readCycle d) = Some ?t" "written s (readCycle d) = d"
    using readCycle_run [OF Suc.prems assms(5,6)] by blast+
  have "pubs ?t 0 = PLoop" "listeners ?t = {}" "firstDataOnce ?t" "bufs ?t 0 = d"
    using Suc.prems by simp_all
  from Suc.IH [OF this]
  have rest: "run ?t (concat (replicate n (readCycle d)))
                = Some (?t\<lparr>rings := (rings ?t)(ringBuffer ?t :=
                      ringWrites (replicate n d) (rings ?t (ringBuffer ?t)))\<rparr>)"
             "written ?t (concat (replicate n (readCycle d))) = concat (replicate n d)"
    by blast+
  have eq: "?t\<lparr>rings := (rings ?t)(ringBuffer ?t :=
                      ringWrites (replicate n d) (rings ?t (ringBuffer ?t)))\<rparr>
            = s\<lparr>rings := (rings s)(ringBuffer s :=
                      ringWrites (replicate (Suc n) d) (rings s (ringBuffer s)))\<rparr>"
    by simp
  have "run s (readCycle d @ concat (replicate n (readCycle d)))
          = run ?t (concat (replicate n (readCycle d)))"
    using one(1) by (simp only: run_append option.case)
  moreover have "written s (readCycle d @ concat (replicate n (readCycle d)))
          = d @ concat (replicate n d)"
    using one rest(2) by (simp only: written_append option.case)
  ultimately show ?case
    using rest(1) eq by (simp only: replicate_Suc concat.simps simp_thms)
qed

lemma warmUp_eval:
  "written (Start demoConfig) warmUp = replicate 1024 0 \<and>
   (case run (Start demoConfig) warmUp of
      None \<Rightarrow> False
    | Some s \<Rightarrow>
        pubs s 0 = PLoop \<and> listeners s = {} \<and> firstDataOnce s \<and>
        bufs s 0 = replicate 1024 0 \<and> ringBuffer s = 1 \<and>
        rings s 1 = replicate 1024 0 \<and> firstData s = 1 \<and> 1 \<in> closedGates s \<and>
        streamCtx s = 2 \<and> streamActive s \<and> lsts s 0 = LNew \<and> louts s 0 = [] \<and>
        nextChan s = 0)"
  by (simp add: warmUp_def fullRead_def eval_defs obs_defs)

lemma fill_history:
  "ringWrites (replicate 127 fullRead) (replicate 1024 0) = replicate 131072 0"
proof -
  have "\<forall>c \<in> set (replicate 127 fullRead). length c \<le> maxRingBufferSize"
    by (simp add: fullRead_def maxRingBufferSize_def)
  then have "ringWrites (replicate 127 fullRead) (lastn maxRingBufferSize (replicate 1024 0))
             = lastn maxRingBufferSize (replicate 1024 0 @ concat (replicate 127 fullRead))"
    by (rule ringWrites_window)
  moreover have "lastn maxRingBufferSize (replicate 1024 (0 :: byte)) = replicate 1024 0"
    by (simp add: lastn_def maxRingBufferSize_def)
  moreover have "replicate 1024 0 @ concat (replicate 127 fullRead) = replicate 131072 (0 :: byte)"
    by (simp add: fullRead_def concat_replicate_replicate replicate_add [symmetric])
  ultimately show ?thesis
    by (simp add: lastn_def maxRingBufferSize_def)
qed

lemma lateJoin_eval:
  assumes "pubs s 0 = PLoop" and "listeners s = {}" and "firstDataOnce s"
      and "bufs s 0 = replicate 1024 0" and "ringBuffer s = 1"
      and "rings s 1 = replicate 131072 0" and "firstData s = 1" and "1 \<in> closedGates s"
      and "streamCtx s = 2" and "streamActive s" and "lsts s 0 = LNew" and "louts s 0 = []"
      and "nextChan s = 0"
  shows "written s lateJoin = [1, 2] \<and>
         (case run s lateJoin of
            None \<Rightarrow> False
          | Some s' \<Rightarrow>
              rings s' (ringBuffer s') = replicate 131070 0 @ [1, 2] \<and>
              louts s' 0 = replicate 131070 0 @ [1, 2] @ [1, 2] \<and>
              lsts s' 0 = LLoop 2 0 \<and> queue (chans s' 0) = [] \<and> pubs s' 0 = PLoop)"
  using assms
  by (simp add: lateJoin_def joinSteps_def step_defs obs_defs trySend_def listenerChanCap_def
        ringWrite_eq lastn_def maxRingBufferSize_def)

text \<open>
  C3, as the specification states it, fails. The session has produced 128 chunks of 1024
  bytes and the chunk \<open>[1, 2]\<close>, which is in the history but not yet fanned out, when
  the listener registers and takes the history: it is sent the most recent
  \<open>maxRingBufferSize\<close> bytes, which end in \<open>[1, 2]\<close>, and then \<open>[1, 2]\<close> once more,
  although nothing was published after it took the history.
\<close>

theorem duplicate_at_boundary_counterexample:
  "written (Start demoConfig) lateJoinTrace = replicate 131072 0 @ [1, 2] \<and>
   (case run (Start demoConfig) lateJoinTrace of
      None \<Rightarrow> False
    | Some s \<Rightarrow>
        rings s (ringBuffer s) = replicate 131070 0 @ [1, 2] \<and>
        louts s 0 = replicate 131070 0 @ [1, 2] @ [1, 2] \<and>
        lsts s 0 = LLoop 2 0 \<and> queue (chans s 0) = [] \<and> pubs s 0 = PLoop)"
proof -
  have wA: "written (Start demoConfig) warmUp = replicate 1024 0"
    using warmUp_eval by blast
  from warmUp_eval [THEN conjunct2]
  obtain sA where rA: "run (Start demoConfig) warmUp = Some sA"
    and fA: "pubs sA 0 = PLoop \<and> listeners sA = {} \<and> firstDataOnce sA \<and>
        bufs sA 0 = replicate 1024 0 \<and> ringBuffer sA = 1 \<and>
        rings sA 1 = replicate 1024 0 \<and> firstData sA = 1 \<and> 1 \<in> closedGates sA \<and>
        streamCtx sA = 2 \<and> streamActive sA \<and> lsts sA 0 = LNew \<and> louts sA 0 = [] \<and>
        nextChan sA = 0"
    by (rule case_SomeE)
  let ?sB = "sA\<lparr>rings := (rings sA)(1 := replicate 131072 0)\<rparr>"
  have fr: "fullRead \<noteq> []" "length fullRead \<le> 1024" "bufs sA 0 = fullRead"
    using fA by (simp_all add: fullRead_def)
  have cyc: "run sA (concat (replicate 127 (readCycle fullRead))) = Some ?sB"
            "written sA (concat (replicate 127 (readCycle fullRead))) = concat (replicate 127 fullRead)"
    using readCycles_run [of sA fullRead 127] fA fr fill_history by simp_all
  have wB: "concat (replicate 127 fullRead) = replicate 130048 (0 :: byte)"
    by (simp add: fullRead_def concat_replicate_replicate)
  have tail: "written ?sB lateJoin = [1, 2] \<and>
         (case run ?sB lateJoin of
            None \<Rightarrow> False
          | Some s' \<Rightarrow>
              rings s' (ringBuffer s') = replicate 131070 0 @ [1, 2] \<and>
              louts s' 0 = replicate 131070 0 @ [1, 2] @ [1, 2] \<and>
              lsts s' 0 = LLoop 2 0 \<and> queue (chans s' 0) = [] \<and> pubs s' 0 = PLoop)"
    using fA by (intro lateJoin_eval) simp_all
  have run_all: "run (Start demoConfig) lateJoinTrace = run ?sB lateJoin"
    using rA cyc(1) by (simp add: lateJoinTrace_def run_append)
  have "written (Start demoConfig) lateJoinTrace
        = replicate 1024 0 @ replicate 130048 0 @ written ?sB lateJoin"
    using rA cyc wA wB by (simp add: lateJoinTrace_def written_append)
  then have w_all: "written (Start demoConfig) lateJoinTrace = replicate 131072 0 @ [1, 2]"
    using tail by (simp add: replicate_add [symmetric])
  show ?thesis
    unfolding run_all using w_all tail by blast
qed

end
